theory Spec2Isabelle
  imports Main "HOL-Library.Word"
begin

unbundle bit_operations_syntax

section \<open>Registers, bit masks and build-time constants\<close>

text \<open>
  The firmware of \<^verbatim>\<open>src/main.cpp\<close> touches eleven memory-mapped registers:
  \<^verbatim>\<open>RCC->AHB2ENR\<close>, \<^verbatim>\<open>RCC->CCIPR\<close>, \<^verbatim>\<open>GPIOA->MODER\<close>, \<^verbatim>\<open>GPIOA->ASCR\<close>,
  \<^verbatim>\<open>ADC123_COMMON->CCR\<close> and six registers of \<^verbatim>\<open>ADC1\<close>.
\<close>

datatype reg =
  RCC_AHB2ENR | RCC_CCIPR | GPIOA_MODER | GPIOA_ASCR | ADC_CCR
  | ADC_CR | ADC_CFGR | ADC_SMPR1 | ADC_SQR1 | ADC_ISR | ADC_DR

type_synonym u8 = "8 word"
type_synonym u16 = "16 word"
type_synonym u32 = "32 word"

text \<open>
  The bit masks are named by the vendor's CMSIS device header \<^verbatim>\<open>stm32l476xx.h\<close>, which the
  program includes and which is not part of the repository. Their values are the ones that header
  gives (bit positions of the STM32L476 reference manual).
\<close>

definition RCC_AHB2ENR_GPIOAEN :: u32 where "RCC_AHB2ENR_GPIOAEN = 0x00000001"
definition RCC_AHB2ENR_ADCEN :: u32 where "RCC_AHB2ENR_ADCEN = 0x00002000"
definition RCC_CCIPR_ADCSEL :: u32 where "RCC_CCIPR_ADCSEL = 0x30000000"
definition ADC_CCR_PRESC :: u32 where "ADC_CCR_PRESC = 0x003C0000"
definition ADC_CCR_PRESC_2 :: u32 where "ADC_CCR_PRESC_2 = 0x00100000"
definition ADC_CR_ADEN :: u32 where "ADC_CR_ADEN = 0x00000001"
definition ADC_CR_ADDIS :: u32 where "ADC_CR_ADDIS = 0x00000002"
definition ADC_CR_ADSTART :: u32 where "ADC_CR_ADSTART = 0x00000004"
definition ADC_CR_ADVREGEN :: u32 where "ADC_CR_ADVREGEN = 0x10000000"
definition ADC_CR_DEEPPWD :: u32 where "ADC_CR_DEEPPWD = 0x20000000"
definition ADC_CR_ADCAL :: u32 where "ADC_CR_ADCAL = 0x80000000"
definition ADC_CFGR_RES :: u32 where "ADC_CFGR_RES = 0x00000018"
definition ADC_CFGR_CONT :: u32 where "ADC_CFGR_CONT = 0x00002000"
definition ADC_SQR1_L :: u32 where "ADC_SQR1_L = 0x0000000F"
definition ADC_ISR_ADRDY :: u32 where "ADC_ISR_ADRDY = 0x00000001"
definition ADC_ISR_EOC :: u32 where "ADC_ISR_EOC = 0x00000004"

lemmas mask_defs =
  RCC_AHB2ENR_GPIOAEN_def RCC_AHB2ENR_ADCEN_def RCC_CCIPR_ADCSEL_def ADC_CCR_PRESC_def
  ADC_CCR_PRESC_2_def ADC_CR_ADEN_def ADC_CR_ADDIS_def ADC_CR_ADSTART_def ADC_CR_ADVREGEN_def
  ADC_CR_DEEPPWD_def ADC_CR_ADCAL_def ADC_CFGR_RES_def ADC_CFGR_CONT_def ADC_SQR1_L_def
  ADC_ISR_ADRDY_def ADC_ISR_EOC_def

text \<open>The \<^verbatim>\<open>#define\<close>s of the application (\<^verbatim>\<open>SAMP_PERIOD\<close> expands to \<^verbatim>\<open>1000000/100\<close>).\<close>

datatype pin = D3 | D4
datatype pin_mode = INPUT | OUTPUT

definition BAUD_RATE :: nat where "BAUD_RATE = 115200"
definition ADC_CHANNEL :: u8 where "ADC_CHANNEL = 5"
definition ADC_PIN :: nat where "ADC_PIN = 0"
definition SAMP_TIME :: u32 where "SAMP_TIME = 0"
definition SAMP_RATE :: nat where "SAMP_RATE = 100"
definition PIN_SAMPLE :: pin where "PIN_SAMPLE = D3"
definition PIN_SERIAL :: pin where "PIN_SERIAL = D4"
definition SAMP_PERIOD :: nat where "SAMP_PERIOD = 1000000 div SAMP_RATE"

lemmas config_defs =
  BAUD_RATE_def ADC_CHANNEL_def ADC_PIN_def SAMP_TIME_def SAMP_RATE_def PIN_SAMPLE_def
  PIN_SERIAL_def SAMP_PERIOD_def

section \<open>The machine: a peripheral behind a bus, pins, a serial sink and a trace\<close>

text \<open>
  The registers are volatile: what a read returns and what a write does is decided by the
  hardware, not by the program. The peripheral is therefore a parameter: a state type \<open>'h\<close> with
  a read operation (the value read and the peripheral's next state, since time passes and reading
  may have side effects) and a write operation.
\<close>

record 'h periph =
  p_read :: "reg \<Rightarrow> 'h \<Rightarrow> u32 \<times> 'h"
  p_write :: "reg \<Rightarrow> u32 \<Rightarrow> 'h \<Rightarrow> 'h"

text \<open>What a read of register \<open>r\<close> would return in peripheral state \<open>h\<close>.\<close>

definition obs :: "'h periph \<Rightarrow> reg \<Rightarrow> 'h \<Rightarrow> u32" where
  "obs P r h = fst (p_read P r h)"

datatype event =
  Read reg u32
  | Write reg u32
  | ArduinoInit
  | SerialBegin nat
  | SerialWrite u8
  | PinMode pin pin_mode
  | DigitalWrite pin bool
  | DelayMicroseconds nat

text \<open>
  The state of the whole system. \<open>trace\<close> is the chronological log of everything the program
  did to its surroundings; each entry carries the peripheral state in which the action was taken.
\<close>

record 'h sys =
  hw :: 'h
  serial :: "u8 list"
  modes :: "pin \<Rightarrow> pin_mode"
  levels :: "pin \<Rightarrow> bool"
  trace :: "(event \<times> 'h) list"

definition log_event :: "event \<Rightarrow> 'h sys \<Rightarrow> 'h sys" where
  "log_event e s = s\<lparr>trace := trace s @ [(e, hw s)]\<rparr>"

definition events :: "'h sys \<Rightarrow> event list" where
  "events s = map fst (trace s)"

subsection \<open>Volatile register accesses\<close>

definition read_reg :: "'h periph \<Rightarrow> reg \<Rightarrow> 'h sys \<Rightarrow> u32 \<times> 'h sys" where
  "read_reg P r s =
     (let (v, h') = p_read P r (hw s) in (v, (log_event (Read r v) s)\<lparr>hw := h'\<rparr>))"

definition write_reg :: "'h periph \<Rightarrow> reg \<Rightarrow> u32 \<Rightarrow> 'h sys \<Rightarrow> 'h sys" where
  "write_reg P r v s = (log_event (Write r v) s)\<lparr>hw := p_write P r v (hw s)\<rparr>"

text \<open>\<^verbatim>\<open>REG |= m\<close> and \<^verbatim>\<open>REG &= ~m\<close>: one read, then one write.\<close>

definition set_bits :: "'h periph \<Rightarrow> reg \<Rightarrow> u32 \<Rightarrow> 'h sys \<Rightarrow> 'h sys" where
  "set_bits P r m s = (let (v, s') = read_reg P r s in write_reg P r (v OR m) s')"

definition clear_bits :: "'h periph \<Rightarrow> reg \<Rightarrow> u32 \<Rightarrow> 'h sys \<Rightarrow> 'h sys" where
  "clear_bits P r m s = (let (v, s') = read_reg P r s in write_reg P r (v AND NOT m) s')"

subsection \<open>The Arduino collaborators\<close>

definition arduino_init :: "'h sys \<Rightarrow> 'h sys" where
  "arduino_init s = log_event ArduinoInit s"

definition serial_begin :: "nat \<Rightarrow> 'h sys \<Rightarrow> 'h sys" where
  "serial_begin baud s = log_event (SerialBegin baud) s"

definition serial_write :: "u8 \<Rightarrow> 'h sys \<Rightarrow> 'h sys" where
  "serial_write b s = (log_event (SerialWrite b) s)\<lparr>serial := serial s @ [b]\<rparr>"

definition pinMode :: "pin \<Rightarrow> pin_mode \<Rightarrow> 'h sys \<Rightarrow> 'h sys" where
  "pinMode p m s = (log_event (PinMode p m) s)\<lparr>modes := (modes s)(p := m)\<rparr>"

definition digitalWrite :: "pin \<Rightarrow> bool \<Rightarrow> 'h sys \<Rightarrow> 'h sys" where
  "digitalWrite p v s = (log_event (DigitalWrite p v) s)\<lparr>levels := (levels s)(p := v)\<rparr>"

definition delayMicroseconds :: "nat \<Rightarrow> 'h sys \<Rightarrow> 'h sys" where
  "delayMicroseconds us s = log_event (DelayMicroseconds us) s"

subsection \<open>Busy-wait loops\<close>

text \<open>
  Every wait of the program is an unbounded spin on a status bit. The model bounds the number of
  polls of one loop by \<open>fuel\<close>: \<open>Spin s\<close> is an execution that is still inside a loop in state
  \<open>s\<close> when the fuel is used up, \<open>Ret a s\<close> one that returned \<open>a\<close>.
\<close>

datatype ('a, 's) outcome = Spin 's | Ret 'a 's

fun state_of :: "('a, 's) outcome \<Rightarrow> 's" where
  "state_of (Spin s) = s"
| "state_of (Ret a s) = s"

fun and_then :: "('a, 's) outcome \<Rightarrow> ('a \<Rightarrow> 's \<Rightarrow> ('b, 's) outcome) \<Rightarrow> ('b, 's) outcome" where
  "and_then (Spin s) f = Spin s"
| "and_then (Ret a s) f = f a s"

text \<open>\<^verbatim>\<open>while (REG & m);\<close>\<close>

fun wait_while_set :: "nat \<Rightarrow> 'h periph \<Rightarrow> reg \<Rightarrow> u32 \<Rightarrow> 'h sys \<Rightarrow> (unit, 'h sys) outcome" where
  "wait_while_set 0 P r m s = Spin s"
| "wait_while_set (Suc fuel) P r m s =
     (let (v, s') = read_reg P r s in
      if v AND m \<noteq> 0 then wait_while_set fuel P r m s' else Ret () s')"

text \<open>\<^verbatim>\<open>while (!(REG & m));\<close>\<close>

fun wait_while_clear :: "nat \<Rightarrow> 'h periph \<Rightarrow> reg \<Rightarrow> u32 \<Rightarrow> 'h sys \<Rightarrow> (unit, 'h sys) outcome" where
  "wait_while_clear 0 P r m s = Spin s"
| "wait_while_clear (Suc fuel) P r m s =
     (let (v, s') = read_reg P r s in
      if \<not> (v AND m \<noteq> 0) then wait_while_clear fuel P r m s' else Ret () s')"

text \<open>\<^verbatim>\<open>for (volatile uint16_t i = 0; i < 1000; i++);\<close> touches no register.\<close>

function settle_loop :: "u16 \<Rightarrow> 'h sys \<Rightarrow> 'h sys" where
  "settle_loop i s = (if i < 1000 then settle_loop (i + 1) s else s)"
  by pat_completeness auto
termination
  by (relation "measure (\<lambda>(i, s). 1000 - unat i)") (auto simp: unat_word_ariths word_less_nat_alt)

section \<open>The program\<close>

subsection \<open>\<^verbatim>\<open>adc_init\<close>\<close>

definition adc_init :: "nat \<Rightarrow> 'h periph \<Rightarrow> 'h sys \<Rightarrow> (unit, 'h sys) outcome" where
  "adc_init fuel P s0 =
     (let s = set_bits P RCC_AHB2ENR RCC_AHB2ENR_ADCEN s0;
          s = set_bits P RCC_CCIPR RCC_CCIPR_ADCSEL s;
          s = clear_bits P ADC_CCR ADC_CCR_PRESC s;
          s = set_bits P ADC_CCR ADC_CCR_PRESC_2 s;
          (c, s) = read_reg P ADC_CR s
      in and_then
           (if c AND ADC_CR_ADEN \<noteq> 0
            then wait_while_set fuel P ADC_CR ADC_CR_ADEN (set_bits P ADC_CR ADC_CR_ADDIS s)
            else Ret () s)
        (\<lambda>_ s.
           let s = clear_bits P ADC_CR ADC_CR_DEEPPWD s;
               s = set_bits P ADC_CR ADC_CR_ADVREGEN s;
               s = settle_loop 0 s;
               s = set_bits P ADC_CR ADC_CR_ADCAL s
           in and_then (wait_while_set fuel P ADC_CR ADC_CR_ADCAL s)
             (\<lambda>_ s.
                let s = clear_bits P ADC_CFGR ADC_CFGR_CONT s;
                    s = clear_bits P ADC_CFGR ADC_CFGR_RES s;
                    s = clear_bits P ADC_SMPR1 (push_bit (unat ADC_CHANNEL * 3) 7) s;
                    s = set_bits P ADC_SMPR1 (push_bit (unat ADC_CHANNEL * 3) SAMP_TIME) s;
                    s = clear_bits P ADC_SQR1 ADC_SQR1_L s;
                    s = set_bits P ADC_CR ADC_CR_ADEN s
                in wait_while_clear fuel P ADC_ISR ADC_ISR_ADRDY s)))"

subsection \<open>\<^verbatim>\<open>adc_read\<close>\<close>

text \<open>
  \<^verbatim>\<open>channel << 6\<close> promotes the \<^verbatim>\<open>uint8_t\<close> to a 32-bit integer first; the return value is the
  32-bit data register cut to \<^verbatim>\<open>uint16_t\<close>.
\<close>

definition adc_read :: "nat \<Rightarrow> 'h periph \<Rightarrow> u8 \<Rightarrow> 'h sys \<Rightarrow> (u16, 'h sys) outcome" where
  "adc_read fuel P channel s0 =
     (let s = digitalWrite PIN_SAMPLE True s0;
          s = clear_bits P ADC_SQR1 (push_bit 6 0x1F) s;
          s = set_bits P ADC_SQR1 (push_bit 6 (ucast channel)) s;
          s = set_bits P ADC_ISR ADC_ISR_EOC s;
          s = set_bits P ADC_CR ADC_CR_ADSTART s
      in and_then (wait_while_clear fuel P ADC_ISR ADC_ISR_EOC s)
        (\<lambda>_ s.
           let s = digitalWrite PIN_SAMPLE False s;
               (d, s) = read_reg P ADC_DR s
           in Ret (ucast d) s))"

subsection \<open>\<^verbatim>\<open>main\<close>\<close>

text \<open>Lines 30 to 43, with \<^verbatim>\<open>adc_init\<close> in the middle.\<close>

definition main_setup :: "'h periph \<Rightarrow> 'h sys \<Rightarrow> 'h sys" where
  "main_setup P s0 =
     (let s = arduino_init s0;
          s = serial_begin BAUD_RATE s;
          s = set_bits P RCC_AHB2ENR RCC_AHB2ENR_GPIOAEN s;
          s = set_bits P GPIOA_MODER (push_bit (ADC_PIN * 2) 3) s;
          s = set_bits P GPIOA_ASCR (push_bit ADC_PIN 1) s
      in s)"

definition main_pins :: "'h sys \<Rightarrow> 'h sys" where
  "main_pins s0 = (let s = pinMode PIN_SAMPLE OUTPUT s0; s = pinMode PIN_SERIAL OUTPUT s in s)"

text \<open>
  The body of \<^verbatim>\<open>while (1)\<close>. In \<^verbatim>\<open>sample & 0xFF\<close> and \<^verbatim>\<open>sample >> 8\<close> the \<^verbatim>\<open>uint16_t\<close> is
  promoted to a 32-bit integer (it stays non-negative), and the cast keeps the low eight bits.
\<close>

definition main_iteration :: "nat \<Rightarrow> 'h periph \<Rightarrow> 'h sys \<Rightarrow> (unit, 'h sys) outcome" where
  "main_iteration fuel P s0 =
     and_then (adc_read fuel P ADC_CHANNEL s0)
       (\<lambda>sample s.
          let s = digitalWrite PIN_SERIAL True s;
              s = serial_write 0xAA s;
              s = serial_write 0xAA s;
              s = serial_write (ucast ((ucast sample :: u32) AND 0xFF)) s;
              s = serial_write (ucast (drop_bit 8 (ucast sample :: u32))) s;
              s = digitalWrite PIN_SERIAL False s;
              s = delayMicroseconds SAMP_PERIOD s
          in Ret () s)"

text \<open>
  \<^verbatim>\<open>while (1)\<close> never returns: \<open>main_loop k\<close> is the execution up to the end of the \<open>k\<close>-th
  iteration (or up to the wait in which the fuel ran out), always a \<open>Spin\<close>.
\<close>

fun main_loop :: "nat \<Rightarrow> nat \<Rightarrow> 'h periph \<Rightarrow> 'h sys \<Rightarrow> (unit, 'h sys) outcome" where
  "main_loop 0 fuel P s = Spin s"
| "main_loop (Suc k) fuel P s = and_then (main_iteration fuel P s) (\<lambda>_ s'. main_loop k fuel P s')"

definition main :: "nat \<Rightarrow> nat \<Rightarrow> 'h periph \<Rightarrow> 'h sys \<Rightarrow> (unit, 'h sys) outcome" where
  "main k fuel P s0 =
     and_then (adc_init fuel P (main_setup P s0))
       (\<lambda>_ s. main_loop k fuel P (main_pins s))"

text \<open>What an execution returned, if it returned.\<close>

fun returned :: "('a, 's) outcome \<Rightarrow> 'a option" where
  "returned (Spin s) = None"
| "returned (Ret a s) = Some a"

text \<open>The system at power-up, around a peripheral in state \<open>h\<close>.\<close>

definition boot :: "'h \<Rightarrow> 'h sys" where
  "boot h = \<lparr>hw = h, serial = [], modes = (\<lambda>_. INPUT), levels = (\<lambda>_. False), trace = []\<rparr>"

text \<open>A test harness: \<^verbatim>\<open>adc_read\<close> called once for each channel of a list, in order.\<close>

fun adc_reads :: "nat \<Rightarrow> 'h periph \<Rightarrow> u8 list \<Rightarrow> 'h sys \<Rightarrow> (u16 list, 'h sys) outcome" where
  "adc_reads fuel P [] s = Ret [] s"
| "adc_reads fuel P (ch # chs) s =
     and_then (adc_read fuel P ch s)
       (\<lambda>v s'. and_then (adc_reads fuel P chs s') (\<lambda>vs s''. Ret (v # vs) s''))"

section \<open>A register-level mock of the peripheral\<close>

text \<open>
  Modelled from the spec: the peripheral itself is hardware and no code of the repository. The
  spec describes it as a state machine (Disabled, Calibrating, Ready, Converting) that is driven by
  register writes and observed through status bits, with a ready flag asserted by the hardware
  after enabling and a sticky end-of-conversion flag that must be acknowledged. The mock below
  follows that description, with the access rules of the STM32L4 reference manual:
  \<^item> the configuration registers are plain storage;
  \<^item> in \<^verbatim>\<open>ADC_CR\<close> the bits \<^verbatim>\<open>ADEN\<close>, \<^verbatim>\<open>ADDIS\<close>, \<^verbatim>\<open>ADCAL\<close> and \<^verbatim>\<open>ADSTART\<close> are commands: writing 1
    starts an operation, writing 0 does nothing, the hardware clears them; \<^verbatim>\<open>DEEPPWD\<close> and
    \<^verbatim>\<open>ADVREGEN\<close> are read-write;
  \<^item> the flags of \<^verbatim>\<open>ADC_ISR\<close> are set by the hardware and cleared by writing 1 to them;
  \<^item> \<^verbatim>\<open>ADC_DR\<close> is read-only and reading it clears the end-of-conversion flag;
  \<^item> an operation takes \<open>latency\<close> register reads to complete (time passes at every read);
  \<^item> a conversion delivers the 12-bit value \<open>analog\<close> gives for the channel in the first
    sequence slot.
\<close>

datatype job = Idle | Disabling nat | Calibrating nat | Enabling nat | Converting nat

record mock_hw =
  ahb2enr :: u32
  ccipr :: u32
  moder :: u32
  ascr :: u32
  ccr :: u32
  cfgr :: u32
  smpr1 :: u32
  sqr1 :: u32
  cr :: u32
  isr :: u32
  dr :: u32
  job :: job
  latency :: nat
  analog :: "u32 \<Rightarrow> u32"

definition mock_tick :: "mock_hw \<Rightarrow> mock_hw" where
  "mock_tick h =
     (case job h of
        Idle \<Rightarrow> h
      | Disabling (Suc n) \<Rightarrow> h\<lparr>job := Disabling n\<rparr>
      | Disabling 0 \<Rightarrow> h\<lparr>cr := cr h AND NOT (ADC_CR_ADEN OR ADC_CR_ADDIS), job := Idle\<rparr>
      | Calibrating (Suc n) \<Rightarrow> h\<lparr>job := Calibrating n\<rparr>
      | Calibrating 0 \<Rightarrow> h\<lparr>cr := cr h AND NOT ADC_CR_ADCAL, job := Idle\<rparr>
      | Enabling (Suc n) \<Rightarrow> h\<lparr>job := Enabling n\<rparr>
      | Enabling 0 \<Rightarrow> h\<lparr>isr := isr h OR ADC_ISR_ADRDY, job := Idle\<rparr>
      | Converting (Suc n) \<Rightarrow> h\<lparr>job := Converting n\<rparr>
      | Converting 0 \<Rightarrow>
          h\<lparr>cr := cr h AND NOT ADC_CR_ADSTART, isr := isr h OR ADC_ISR_EOC,
            dr := analog h (drop_bit 6 (sqr1 h) AND 0x1F) AND 0xFFF, job := Idle\<rparr>)"

definition mock_value :: "reg \<Rightarrow> mock_hw \<Rightarrow> u32" where
  "mock_value r h =
     (case r of
        RCC_AHB2ENR \<Rightarrow> ahb2enr h | RCC_CCIPR \<Rightarrow> ccipr h | GPIOA_MODER \<Rightarrow> moder h
      | GPIOA_ASCR \<Rightarrow> ascr h | ADC_CCR \<Rightarrow> ccr h | ADC_CR \<Rightarrow> cr h | ADC_CFGR \<Rightarrow> cfgr h
      | ADC_SMPR1 \<Rightarrow> smpr1 h | ADC_SQR1 \<Rightarrow> sqr1 h | ADC_ISR \<Rightarrow> isr h | ADC_DR \<Rightarrow> dr h)"

definition mock_read :: "reg \<Rightarrow> mock_hw \<Rightarrow> u32 \<times> mock_hw" where
  "mock_read r h =
     (mock_value r h,
      mock_tick (if r = ADC_DR then h\<lparr>isr := isr h AND NOT ADC_ISR_EOC\<rparr> else h))"

definition mock_write_cr :: "u32 \<Rightarrow> mock_hw \<Rightarrow> mock_hw" where
  "mock_write_cr v h0 =
     (let rw = ADC_CR_DEEPPWD OR ADC_CR_ADVREGEN;
          h = h0\<lparr>cr := (cr h0 AND NOT rw) OR (v AND rw)\<rparr>
      in if job h \<noteq> Idle then h
         else if v AND ADC_CR_ADDIS \<noteq> 0 \<and> cr h AND ADC_CR_ADEN \<noteq> 0 then
           h\<lparr>cr := cr h OR ADC_CR_ADDIS, job := Disabling (latency h)\<rparr>
         else if v AND ADC_CR_ADCAL \<noteq> 0 \<and> cr h AND ADC_CR_ADEN = 0 then
           h\<lparr>cr := cr h OR ADC_CR_ADCAL, job := Calibrating (latency h)\<rparr>
         else if v AND ADC_CR_ADEN \<noteq> 0 \<and> cr h AND ADC_CR_ADEN = 0 then
           h\<lparr>cr := cr h OR ADC_CR_ADEN, job := Enabling (latency h)\<rparr>
         else if v AND ADC_CR_ADSTART \<noteq> 0 \<and> cr h AND ADC_CR_ADEN \<noteq> 0 then
           h\<lparr>cr := cr h OR ADC_CR_ADSTART, job := Converting (latency h)\<rparr>
         else h)"

definition mock_write :: "reg \<Rightarrow> u32 \<Rightarrow> mock_hw \<Rightarrow> mock_hw" where
  "mock_write r v h =
     (case r of
        RCC_AHB2ENR \<Rightarrow> h\<lparr>ahb2enr := v\<rparr> | RCC_CCIPR \<Rightarrow> h\<lparr>ccipr := v\<rparr>
      | GPIOA_MODER \<Rightarrow> h\<lparr>moder := v\<rparr> | GPIOA_ASCR \<Rightarrow> h\<lparr>ascr := v\<rparr>
      | ADC_CCR \<Rightarrow> h\<lparr>ccr := v\<rparr> | ADC_CFGR \<Rightarrow> h\<lparr>cfgr := v\<rparr>
      | ADC_SMPR1 \<Rightarrow> h\<lparr>smpr1 := v\<rparr> | ADC_SQR1 \<Rightarrow> h\<lparr>sqr1 := v\<rparr>
      | ADC_CR \<Rightarrow> mock_write_cr v h
      | ADC_ISR \<Rightarrow> h\<lparr>isr := isr h AND NOT v\<rparr>
      | ADC_DR \<Rightarrow> h)"

definition mock :: "mock_hw periph" where
  "mock = \<lparr>p_read = mock_read, p_write = mock_write\<rparr>"

text \<open>The mock after reset: every register at its reset value, the unit in deep power-down.\<close>

definition mock_reset :: "nat \<Rightarrow> (u32 \<Rightarrow> u32) \<Rightarrow> mock_hw" where
  "mock_reset lat ain =
     \<lparr>ahb2enr = 0, ccipr = 0, moder = 0, ascr = 0, ccr = 0, cfgr = 0, smpr1 = 0, sqr1 = 0,
      cr = ADC_CR_DEEPPWD, isr = 0, dr = 0, job = Idle, latency = lat, analog = ain\<rparr>"

section \<open>Vocabulary for the proofs\<close>

text \<open>The peripheral state a read of \<open>r\<close> leaves behind.\<close>

definition after_read :: "'h periph \<Rightarrow> reg \<Rightarrow> 'h \<Rightarrow> 'h" where
  "after_read P r h = snd (p_read P r h)"


text \<open>
  The straight-line stretches of \<^verbatim>\<open>adc_init\<close> and \<^verbatim>\<open>adc_read\<close> between their waits, named so
  that the states in which the waits begin can be spoken of. Lemmas \<open>adc_init_unfold\<close> and
  \<open>adc_read_unfold\<close> show that the functions are exactly these stretches joined by the waits.
\<close>

definition adc_init_clocks :: "'h periph \<Rightarrow> 'h sys \<Rightarrow> 'h sys" where
  "adc_init_clocks P s =
     set_bits P ADC_CCR ADC_CCR_PRESC_2
       (clear_bits P ADC_CCR ADC_CCR_PRESC
         (set_bits P RCC_CCIPR RCC_CCIPR_ADCSEL
           (set_bits P RCC_AHB2ENR RCC_AHB2ENR_ADCEN s)))"

definition adc_init_disable :: "nat \<Rightarrow> 'h periph \<Rightarrow> 'h sys \<Rightarrow> (unit, 'h sys) outcome" where
  "adc_init_disable fuel P s =
     (if obs P ADC_CR (hw s) AND ADC_CR_ADEN \<noteq> 0
      then wait_while_set fuel P ADC_CR ADC_CR_ADEN
             (set_bits P ADC_CR ADC_CR_ADDIS (snd (read_reg P ADC_CR s)))
      else Ret () (snd (read_reg P ADC_CR s)))"

definition adc_init_calibrate :: "'h periph \<Rightarrow> 'h sys \<Rightarrow> 'h sys" where
  "adc_init_calibrate P s =
     set_bits P ADC_CR ADC_CR_ADCAL
       (settle_loop 0
         (set_bits P ADC_CR ADC_CR_ADVREGEN
           (clear_bits P ADC_CR ADC_CR_DEEPPWD s)))"

definition adc_init_configure :: "'h periph \<Rightarrow> 'h sys \<Rightarrow> 'h sys" where
  "adc_init_configure P s =
     set_bits P ADC_CR ADC_CR_ADEN
       (clear_bits P ADC_SQR1 ADC_SQR1_L
         (set_bits P ADC_SMPR1 (push_bit (unat ADC_CHANNEL * 3) SAMP_TIME)
           (clear_bits P ADC_SMPR1 (push_bit (unat ADC_CHANNEL * 3) 7)
             (clear_bits P ADC_CFGR ADC_CFGR_RES
               (clear_bits P ADC_CFGR ADC_CFGR_CONT s)))))"

definition adc_read_start :: "'h periph \<Rightarrow> u8 \<Rightarrow> 'h sys \<Rightarrow> 'h sys" where
  "adc_read_start P channel s =
     set_bits P ADC_CR ADC_CR_ADSTART
       (set_bits P ADC_ISR ADC_ISR_EOC
         (set_bits P ADC_SQR1 (push_bit 6 (ucast channel))
           (clear_bits P ADC_SQR1 (push_bit 6 0x1F)
             (digitalWrite PIN_SAMPLE True s))))"

definition adc_read_finish :: "'h periph \<Rightarrow> 'h sys \<Rightarrow> (u16, 'h sys) outcome" where
  "adc_read_finish P s =
     Ret (ucast (obs P ADC_DR (hw s))) (snd (read_reg P ADC_DR (digitalWrite PIN_SAMPLE False s)))"


text \<open>States of the mock: switched off and quiet, and enabled with nothing in progress.\<close>

definition mock_off :: "mock_hw \<Rightarrow> bool" where
  "mock_off h \<longleftrightarrow>
     job h = Idle \<and> cr h AND ADC_CR_ADEN = 0 \<and> cr h AND ADC_CR_ADDIS = 0
     \<and> cr h AND ADC_CR_ADSTART = 0 \<and> cr h AND ADC_CR_ADCAL = 0 \<and> isr h AND ADC_ISR_ADRDY = 0"

definition mock_ready :: "mock_hw \<Rightarrow> bool" where
  "mock_ready h \<longleftrightarrow>
     job h = Idle \<and> cr h AND ADC_CR_ADEN \<noteq> 0 \<and> cr h AND ADC_CR_ADDIS = 0
     \<and> cr h AND ADC_CR_ADSTART = 0 \<and> cr h AND ADC_CR_ADCAL = 0"

text \<open>What an execution added to the trace of the state it started in.\<close>

definition since :: "'h sys \<Rightarrow> 'h sys \<Rightarrow> (event \<times> 'h) list" where
  "since s s' = drop (length (trace s)) (trace s')"

text \<open>Kinds of events: a read of register \<open>r\<close>, a read of \<open>r\<close> that shows a bit of \<open>m\<close> set,
  a write to \<open>r\<close>, a write to \<open>r\<close> with a bit of \<open>m\<close> set.\<close>

fun is_read :: "reg \<Rightarrow> event \<Rightarrow> bool" where
  "is_read r (Read r' v) = (r' = r)"
| "is_read r _ = False"

fun reads_set :: "reg \<Rightarrow> u32 \<Rightarrow> event \<Rightarrow> bool" where
  "reads_set r m (Read r' v) = (r' = r \<and> v AND m \<noteq> 0)"
| "reads_set r m _ = False"

fun is_write :: "reg \<Rightarrow> event \<Rightarrow> bool" where
  "is_write r (Write r' v) = (r' = r)"
| "is_write r _ = False"

fun writes_set :: "reg \<Rightarrow> u32 \<Rightarrow> event \<Rightarrow> bool" where
  "writes_set r m (Write r' v) = (r' = r \<and> v AND m \<noteq> 0)"
| "writes_set r m _ = False"

text \<open>The levels written to the sample timing probe, in order.\<close>

fun probe_levels :: "event list \<Rightarrow> bool list" where
  "probe_levels [] = []"
| "probe_levels (DigitalWrite p v # es) =
     (if p = PIN_SAMPLE then v # probe_levels es else probe_levels es)"
| "probe_levels (e # es) = probe_levels es"

text \<open>Hardware contracts a peripheral may satisfy: a write-1-to-clear register.\<close>

definition w1c :: "'h periph \<Rightarrow> reg \<Rightarrow> bool" where
  "w1c P r \<longleftrightarrow> (\<forall>h v. obs P r (p_write P r v h) = obs P r h AND NOT v)"

fun is_access :: "event \<Rightarrow> bool" where
  "is_access (Read r v) = True"
| "is_access (Write r v) = True"
| "is_access _ = False"

text \<open>A plain storage register: a read returns what was written last, and no access to
  another register, and no read, changes it.\<close>

definition storage :: "'h periph \<Rightarrow> reg \<Rightarrow> bool" where
  "storage P r \<longleftrightarrow>
     (\<forall>h v. obs P r (p_write P r v h) = v)
     \<and> (\<forall>h r' v. r' \<noteq> r \<longrightarrow> obs P r (p_write P r' v h) = obs P r h)
     \<and> (\<forall>h r'. obs P r (after_read P r' h) = obs P r h)"

text \<open>A trace entry respects the order of flag and start: if it is a write to the control
  register with the start bit set, no end-of-conversion flag is observable in the state the write
  is made in.\<close>

definition start_sees_no_flag :: "'h periph \<Rightarrow> event \<times> 'h \<Rightarrow> bool" where
  "start_sees_no_flag P x \<longleftrightarrow>
     (writes_set ADC_CR ADC_CR_ADSTART (fst x) \<longrightarrow> obs P ADC_ISR (snd x) AND ADC_ISR_EOC = 0)"

text \<open>A peripheral of constants, for probing what the code does with a register value: the
  status register always reads as end-of-conversion, the data register always reads as \<open>d\<close>,
  every other register reads as 0, and writes are ignored.\<close>

definition fixed_dr :: "u32 \<Rightarrow> unit periph" where
  "fixed_dr d =
     \<lparr>p_read = (\<lambda>r h. (if r = ADC_DR then d else if r = ADC_ISR then ADC_ISR_EOC else 0, h)),
      p_write = (\<lambda>r v h. h)\<rparr>"

text \<open>Within the mask \<open>m\<close>, the hardware never raises a bit of register \<open>r\<close> by itself: a bit
  that is set after an access was set before it, or the access was a write to \<open>r\<close> with that bit
  set.\<close>

definition raised_by_writes_only :: "'h periph \<Rightarrow> reg \<Rightarrow> u32 \<Rightarrow> bool" where
  "raised_by_writes_only P r m \<longleftrightarrow>
     (\<forall>h r'. obs P r (after_read P r' h) AND m AND NOT (obs P r h) = 0)
     \<and> (\<forall>h r' v. r' \<noteq> r \<longrightarrow> obs P r (p_write P r' v h) AND m AND NOT (obs P r h) = 0)
     \<and> (\<forall>h v. obs P r (p_write P r v h) AND m AND NOT (obs P r h) AND NOT v = 0)"

text \<open>A trace entry is harmless for calibration: if it is a write to the control register with
  the calibration bit set, the peripheral is disabled in the state the write is made in.\<close>

definition calibration_disabled :: "'h periph \<Rightarrow> event \<times> 'h \<Rightarrow> bool" where
  "calibration_disabled P x \<longleftrightarrow>
     (writes_set ADC_CR ADC_CR_ADCAL (fst x) \<longrightarrow> obs P ADC_CR (snd x) AND ADC_CR_ADEN = 0)"

text \<open>State \<open>s'\<close> continues state \<open>s\<close> with trace entries that all satisfy \<open>Q\<close>.\<close>

definition extends_with :: "(event \<times> 'h \<Rightarrow> bool) \<Rightarrow> 'h sys \<Rightarrow> 'h sys \<Rightarrow> bool" where
  "extends_with Q s s' \<longleftrightarrow> (\<exists>t. trace s' = trace s @ t \<and> list_all Q t)"

text \<open>The bits \<open>b\<close> of the control register read as clear in state \<open>s\<close>.\<close>

definition cr_clear :: "'h periph \<Rightarrow> u32 \<Rightarrow> 'h sys \<Rightarrow> bool" where
  "cr_clear P b s \<longleftrightarrow> obs P ADC_CR (hw s) AND b = 0"

text \<open>The events that only \<^verbatim>\<open>adc_read\<close> produces: driving the sample probe, writing the status
  register, writing the control register with the start bit set, reading the data register.\<close>

fun conversion_event :: "event \<Rightarrow> bool" where
  "conversion_event (DigitalWrite p v) = (p = PIN_SAMPLE)"
| "conversion_event (Write r v) = (r = ADC_ISR \<or> (r = ADC_CR \<and> v AND ADC_CR_ADSTART \<noteq> 0))"
| "conversion_event (Read r v) = (r = ADC_DR)"
| "conversion_event _ = False"

text \<open>State \<open>s\<close> continues \<open>s0\<close> without any conversion event, and its control register shows
  no conversion started.\<close>

definition unconverted :: "'h periph \<Rightarrow> 'h sys \<Rightarrow> 'h sys \<Rightarrow> bool" where
  "unconverted P s0 s \<longleftrightarrow>
     extends_with (\<lambda>x. \<not> conversion_event (fst x)) s0 s \<and> cr_clear P ADC_CR_ADSTART s"

section \<open>Basic facts about the machine\<close>

declare settle_loop.simps [simp del]



lemma read_reg_eq:
  "read_reg P r s =
     (obs P r (hw s), s\<lparr>hw := after_read P r (hw s), trace := trace s @ [(Read r (obs P r (hw s)), hw s)]\<rparr>)"
  by (simp add: read_reg_def log_event_def obs_def after_read_def split: prod.split)

lemma write_reg_eq:
  "write_reg P r v s = s\<lparr>hw := p_write P r v (hw s), trace := trace s @ [(Write r v, hw s)]\<rparr>"
  by (simp add: write_reg_def log_event_def)

lemma set_bits_eq:
  "set_bits P r m s =
     s\<lparr>hw := p_write P r (obs P r (hw s) OR m) (after_read P r (hw s)),
       trace := trace s @ [(Read r (obs P r (hw s)), hw s),
                           (Write r (obs P r (hw s) OR m), after_read P r (hw s))]\<rparr>"
  by (simp add: set_bits_def read_reg_eq write_reg_eq)

lemma clear_bits_eq:
  "clear_bits P r m s =
     s\<lparr>hw := p_write P r (obs P r (hw s) AND NOT m) (after_read P r (hw s)),
       trace := trace s @ [(Read r (obs P r (hw s)), hw s),
                           (Write r (obs P r (hw s) AND NOT m), after_read P r (hw s))]\<rparr>"
  by (simp add: clear_bits_def read_reg_eq write_reg_eq)

lemma digitalWrite_eq:
  "digitalWrite p v s =
     s\<lparr>levels := (levels s)(p := v), trace := trace s @ [(DigitalWrite p v, hw s)]\<rparr>"
  by (simp add: digitalWrite_def log_event_def)

lemma serial_write_eq:
  "serial_write b s = s\<lparr>serial := serial s @ [b], trace := trace s @ [(SerialWrite b, hw s)]\<rparr>"
  by (simp add: serial_write_def log_event_def)

lemma delayMicroseconds_eq:
  "delayMicroseconds us s = s\<lparr>trace := trace s @ [(DelayMicroseconds us, hw s)]\<rparr>"
  by (simp add: delayMicroseconds_def log_event_def)

lemma pinMode_eq:
  "pinMode p m s = s\<lparr>modes := (modes s)(p := m), trace := trace s @ [(PinMode p m, hw s)]\<rparr>"
  by (simp add: pinMode_def log_event_def)

lemma settle_loop_id [simp]: "settle_loop i s = s"
proof (induction i s rule: settle_loop.induct)
  case (1 i s)
  then show ?case by (subst settle_loop.simps) simp
qed

lemma serial_prims [simp]:
  "serial (snd (read_reg P r s)) = serial s"
  "serial (write_reg P r v s) = serial s"
  "serial (set_bits P r m s) = serial s"
  "serial (clear_bits P r m s) = serial s"
  "serial (digitalWrite p b s) = serial s"
  "serial (pinMode p md s) = serial s"
  "serial (delayMicroseconds us s) = serial s"
  "serial (serial_write x s) = serial s @ [x]"
  by (simp_all add: read_reg_eq write_reg_eq set_bits_eq clear_bits_eq digitalWrite_eq
      pinMode_eq delayMicroseconds_eq serial_write_eq)

lemma levels_prims [simp]:
  "levels (snd (read_reg P r s)) = levels s"
  "levels (write_reg P r v s) = levels s"
  "levels (set_bits P r m s) = levels s"
  "levels (clear_bits P r m s) = levels s"
  "levels (digitalWrite p b s) = (levels s)(p := b)"
  "levels (pinMode p md s) = levels s"
  "levels (delayMicroseconds us s) = levels s"
  "levels (serial_write x s) = levels s"
  by (simp_all add: read_reg_eq write_reg_eq set_bits_eq clear_bits_eq digitalWrite_eq
      pinMode_eq delayMicroseconds_eq serial_write_eq)

lemma hw_prims [simp]:
  "hw (snd (read_reg P r s)) = after_read P r (hw s)"
  "hw (write_reg P r v s) = p_write P r v (hw s)"
  "hw (digitalWrite p b s) = hw s"
  "hw (pinMode p md s) = hw s"
  "hw (delayMicroseconds us s) = hw s"
  "hw (serial_write x s) = hw s"
  by (simp_all add: read_reg_eq write_reg_eq digitalWrite_eq
      pinMode_eq delayMicroseconds_eq serial_write_eq)

lemma fst_read_reg [simp]: "fst (read_reg P r s) = obs P r (hw s)"
  by (simp add: read_reg_eq)

lemma trace_prims:
  "trace (snd (read_reg P r s)) = trace s @ [(Read r (obs P r (hw s)), hw s)]"
  "trace (write_reg P r v s) = trace s @ [(Write r v, hw s)]"
  "trace (set_bits P r m s) = trace s @ [(Read r (obs P r (hw s)), hw s),
                           (Write r (obs P r (hw s) OR m), after_read P r (hw s))]"
  "trace (clear_bits P r m s) = trace s @ [(Read r (obs P r (hw s)), hw s),
                           (Write r (obs P r (hw s) AND NOT m), after_read P r (hw s))]"
  "trace (digitalWrite p b s) = trace s @ [(DigitalWrite p b, hw s)]"
  "trace (pinMode p md s) = trace s @ [(PinMode p md, hw s)]"
  "trace (delayMicroseconds us s) = trace s @ [(DelayMicroseconds us, hw s)]"
  "trace (serial_write x s) = trace s @ [(SerialWrite x, hw s)]"
  by (simp_all add: read_reg_eq write_reg_eq set_bits_eq clear_bits_eq digitalWrite_eq
      pinMode_eq delayMicroseconds_eq serial_write_eq)

lemma state_of_and_then:
  "state_of (and_then m f) = (case m of Spin s \<Rightarrow> s | Ret a s \<Rightarrow> state_of (f a s))"
  by (cases m) simp_all

lemma returned_and_then:
  "returned (and_then m f) = (case m of Spin s \<Rightarrow> None | Ret a s \<Rightarrow> returned (f a s))"
  by (cases m) simp_all

lemma returned_Some_iff: "returned m = Some a \<longleftrightarrow> m = Ret a (state_of m)"
  by (cases m) simp_all

lemma returned_None_iff: "returned m = None \<longleftrightarrow> m = Spin (state_of m)"
  by (cases m) simp_all

lemma adc_read_unfold:
  "adc_read n P ch s =
     and_then (wait_while_clear n P ADC_ISR ADC_ISR_EOC (adc_read_start P ch s))
       (\<lambda>_ s'. adc_read_finish P s')"
  by (simp add: adc_read_def adc_read_start_def adc_read_finish_def Let_def case_prod_beta)


lemma wait_while_set_Suc:
  "wait_while_set (Suc n) P r m s =
     (if obs P r (hw s) AND m \<noteq> 0 then wait_while_set n P r m (snd (read_reg P r s))
      else Ret () (snd (read_reg P r s)))"
  by (simp add: case_prod_beta)

lemma wait_while_clear_Suc:
  "wait_while_clear (Suc n) P r m s =
     (if obs P r (hw s) AND m = 0 then wait_while_clear n P r m (snd (read_reg P r s))
      else Ret () (snd (read_reg P r s)))"
  by (simp add: case_prod_beta)

declare wait_while_set.simps(2) [simp del] wait_while_clear.simps(2) [simp del]

lemma wait_while_set_rule:
  assumes "I s" and "\<And>s. I s \<Longrightarrow> I (snd (read_reg P r s))"
  shows "case wait_while_set n P r m s of
           Spin s' \<Rightarrow> I s'
         | Ret _ s' \<Rightarrow> \<exists>s0. I s0 \<and> s' = snd (read_reg P r s0) \<and> obs P r (hw s0) AND m = 0"
  using assms(1)
proof (induction n arbitrary: s)
  case 0
  then show ?case by simp
next
  case (Suc n)
  show ?case
  proof (cases "obs P r (hw s) AND m \<noteq> 0")
    case True
    then show ?thesis
      using Suc.IH [OF assms(2) [OF Suc.prems]] by (simp add: wait_while_set_Suc)
  next
    case False
    then show ?thesis
      using Suc.prems by (auto simp: wait_while_set_Suc)
  qed
qed

lemma wait_while_clear_rule:
  assumes "I s" and "\<And>s. I s \<Longrightarrow> I (snd (read_reg P r s))"
  shows "case wait_while_clear n P r m s of
           Spin s' \<Rightarrow> I s'
         | Ret _ s' \<Rightarrow> \<exists>s0. I s0 \<and> s' = snd (read_reg P r s0) \<and> obs P r (hw s0) AND m \<noteq> 0"
  using assms(1)
proof (induction n arbitrary: s)
  case 0
  then show ?case by simp
next
  case (Suc n)
  show ?case
  proof (cases "obs P r (hw s) AND m = 0")
    case True
    then show ?thesis
      using Suc.IH [OF assms(2) [OF Suc.prems]] by (simp add: wait_while_clear_Suc)
  next
    case False
    then show ?thesis
      using Suc.prems by (auto simp: wait_while_clear_Suc)
  qed
qed

lemma wait_while_set_inv:
  assumes "I s" and "\<And>s. I s \<Longrightarrow> I (snd (read_reg P r s))"
  shows "I (state_of (wait_while_set n P r m s))"
  using wait_while_set_rule [where I=I and n=n and m=m, OF assms] assms(2)
  by (cases "wait_while_set n P r m s") auto

lemma wait_while_clear_inv:
  assumes "I s" and "\<And>s. I s \<Longrightarrow> I (snd (read_reg P r s))"
  shows "I (state_of (wait_while_clear n P r m s))"
  using wait_while_clear_rule [where I=I and n=n and m=m, OF assms] assms(2)
  by (cases "wait_while_clear n P r m s") auto

lemma wait_serial [simp]:
  "serial (state_of (wait_while_set n P r m s)) = serial s"
  "serial (state_of (wait_while_clear n P r m s)) = serial s"
  by (rule wait_while_set_inv, simp, simp) (rule wait_while_clear_inv, simp, simp)

lemma wait_levels [simp]:
  "levels (state_of (wait_while_set n P r m s)) = levels s"
  "levels (state_of (wait_while_clear n P r m s)) = levels s"
  by (rule wait_while_set_inv, simp, simp) (rule wait_while_clear_inv, simp, simp)

lemma adc_read_start_fields [simp]:
  "serial (adc_read_start P ch s) = serial s"
  "levels (adc_read_start P ch s) = (levels s)(PIN_SAMPLE := True)"
  by (simp_all add: adc_read_start_def)

lemma adc_read_cases:
  obtains (spin) s1 where "wait_while_clear n P ADC_ISR ADC_ISR_EOC (adc_read_start P ch s) = Spin s1"
      "adc_read n P ch s = Spin s1"
  | (ret) s1 where "wait_while_clear n P ADC_ISR ADC_ISR_EOC (adc_read_start P ch s) = Ret () s1"
      "adc_read n P ch s =
         Ret (ucast (obs P ADC_DR (hw s1))) (snd (read_reg P ADC_DR (digitalWrite PIN_SAMPLE False s1)))"
  by (cases "wait_while_clear n P ADC_ISR ADC_ISR_EOC (adc_read_start P ch s)")
     (auto simp: adc_read_unfold adc_read_finish_def)

lemma adc_read_serial [simp]: "serial (state_of (adc_read n P ch s)) = serial s"
proof (cases n P ch s rule: adc_read_cases)
  case (spin s1)
  then show ?thesis
    using wait_serial(2) [of n P ADC_ISR ADC_ISR_EOC "adc_read_start P ch s"] by simp
next
  case (ret s1)
  then show ?thesis
    using wait_serial(2) [of n P ADC_ISR ADC_ISR_EOC "adc_read_start P ch s"] by simp
qed

lemma mask_255: "(0xFF :: 'a::len word) = mask 8"
  by (simp add: mask_eq_exp_minus_1)

lemma mask_4095: "(0xFFF :: 'a::len word) = mask 12"
  by (simp add: mask_eq_exp_minus_1)

lemma lo_byte: "(ucast ((ucast (x::u16) :: u32) AND 0xFF) :: u8) = ucast (x AND 0xFF)"
  unfolding mask_255 by (rule bit_word_eqI) (auto simp: bit_simps)

lemma hi_byte: "(ucast (drop_bit 8 (ucast (x::u16) :: u32)) :: u8) = ucast (drop_bit 8 x)"
  by (rule bit_word_eqI) (auto simp: bit_simps)

lemma roundtrip:
  "(ucast (ucast ((x::u16) AND 0xFF) :: u8) :: u16) OR push_bit 8 (ucast (ucast (drop_bit 8 x) :: u8)) = x"
  unfolding mask_255 by (rule bit_word_eqI) (auto simp: bit_simps)


lemma mock_obs [simp]: "obs mock r h = mock_value r h"
  by (simp add: obs_def mock_def mock_read_def)

lemma mock_after_read [simp]:
  "after_read mock r h =
     mock_tick (if r = ADC_DR then h\<lparr>isr := isr h AND NOT ADC_ISR_EOC\<rparr> else h)"
  by (simp add: after_read_def mock_def mock_read_def)

lemma mock_p_write [simp]: "p_write mock = mock_write"
  by (simp add: mock_def)

lemma mock_tick_idle [simp]: "job h = Idle \<Longrightarrow> mock_tick h = h"
  by (simp add: mock_tick_def)

lemma hw_rmw [simp]:
  "hw (set_bits P r m s) = p_write P r (obs P r (hw s) OR m) (after_read P r (hw s))"
  "hw (clear_bits P r m s) = p_write P r (obs P r (hw s) AND NOT m) (after_read P r (hw s))"
  by (simp_all add: set_bits_eq clear_bits_eq)


lemma and_not_same [simp]: "(x AND NOT m) AND m = (0 :: 'a::len word)"
  by (rule bit_eqI) (auto simp: bit_simps)

lemma and_not_or_same [simp]:
  "(x AND NOT (a OR b)) AND a = (0 :: 'a::len word)"
  "(x AND NOT (a OR b)) AND b = (0 :: 'a::len word)"
  by (rule bit_eqI, auto simp: bit_simps)+

lemma and_not_not_same [simp]:
  "(x AND NOT a AND NOT b) AND a = (0 :: 'a::len word)"
  "(x AND NOT a AND NOT b) AND b = (0 :: 'a::len word)"
  by (rule bit_eqI, auto simp: bit_simps)+

lemma or_and_same [simp]: "(x OR m) AND m = (m :: 'a::len word)"
  by (rule bit_eqI) (auto simp: bit_simps)

lemma masks_nonzero [simp]:
  "ADC_CR_ADEN \<noteq> 0" "ADC_CR_ADDIS \<noteq> 0" "ADC_CR_ADSTART \<noteq> 0" "ADC_CR_ADCAL \<noteq> 0"
  "ADC_ISR_ADRDY \<noteq> 0" "ADC_ISR_EOC \<noteq> 0"
  by (simp_all add: mask_defs)

lemma fuel_two: "k + 1 < fuel \<Longrightarrow> \<exists>n. fuel = Suc n \<and> k < n"
  by (cases fuel) auto

lemma mock_wait_converting:
  assumes "job (hw s) = Converting k" and "k + 1 < fuel" and "isr (hw s) AND ADC_ISR_EOC = 0"
  shows "returned (wait_while_clear fuel mock ADC_ISR ADC_ISR_EOC s) = Some ()
       \<and> hw (state_of (wait_while_clear fuel mock ADC_ISR ADC_ISR_EOC s)) =
           (hw s)\<lparr>cr := cr (hw s) AND NOT ADC_CR_ADSTART, isr := isr (hw s) OR ADC_ISR_EOC,
             dr := analog (hw s) (drop_bit 6 (sqr1 (hw s)) AND 0x1F) AND 0xFFF, job := Idle\<rparr>"
  using assms
proof (induction k arbitrary: fuel s)
  case 0
  then obtain n where n: "fuel = Suc (Suc n)"
    by (metis Suc_lessE add_0 less_Suc_eq_0_disj not_less_eq plus_1_eq_Suc)
  show ?case using 0
    by (simp add: n wait_while_clear_Suc mock_value_def) (simp add: mock_tick_def)
next
  case (Suc k)
  from fuel_two [OF Suc.prems(2)] obtain n where n: "fuel = Suc n" "Suc k < n" by blast
  let ?s = "snd (read_reg mock ADC_ISR s)"
  have h: "mock_tick (hw s) = (hw s)\<lparr>job := Converting k\<rparr>"
    using Suc.prems(1) by (simp add: mock_tick_def)
  have "job (hw ?s) = Converting k" "k + 1 < n" "isr (hw ?s) AND ADC_ISR_EOC = 0"
    using h n Suc.prems(3) by simp_all
  from Suc.IH [OF this] show ?case
    using Suc.prems(3) by (simp add: n wait_while_clear_Suc mock_value_def h)
qed

lemma mock_wait_enabling:
  assumes "job (hw s) = Enabling k" and "k + 1 < fuel" and "isr (hw s) AND ADC_ISR_ADRDY = 0"
  shows "returned (wait_while_clear fuel mock ADC_ISR ADC_ISR_ADRDY s) = Some ()
       \<and> hw (state_of (wait_while_clear fuel mock ADC_ISR ADC_ISR_ADRDY s)) =
           (hw s)\<lparr>isr := isr (hw s) OR ADC_ISR_ADRDY, job := Idle\<rparr>"
  using assms
proof (induction k arbitrary: fuel s)
  case 0
  then obtain n where n: "fuel = Suc (Suc n)"
    by (metis Suc_lessE add_0 less_Suc_eq_0_disj not_less_eq plus_1_eq_Suc)
  show ?case using 0
    by (simp add: n wait_while_clear_Suc mock_value_def) (simp add: mock_tick_def)
next
  case (Suc k)
  from fuel_two [OF Suc.prems(2)] obtain n where n: "fuel = Suc n" "Suc k < n" by blast
  let ?s = "snd (read_reg mock ADC_ISR s)"
  have h: "mock_tick (hw s) = (hw s)\<lparr>job := Enabling k\<rparr>"
    using Suc.prems(1) by (simp add: mock_tick_def)
  have "job (hw ?s) = Enabling k" "k + 1 < n" "isr (hw ?s) AND ADC_ISR_ADRDY = 0"
    using h n Suc.prems(3) by simp_all
  from Suc.IH [OF this] show ?case
    using Suc.prems(3) by (simp add: n wait_while_clear_Suc mock_value_def h)
qed

lemma mock_wait_calibrating:
  assumes "job (hw s) = Calibrating k" and "k + 1 < fuel" and "cr (hw s) AND ADC_CR_ADCAL \<noteq> 0"
  shows "returned (wait_while_set fuel mock ADC_CR ADC_CR_ADCAL s) = Some ()
       \<and> hw (state_of (wait_while_set fuel mock ADC_CR ADC_CR_ADCAL s)) =
           (hw s)\<lparr>cr := cr (hw s) AND NOT ADC_CR_ADCAL, job := Idle\<rparr>"
  using assms
proof (induction k arbitrary: fuel s)
  case 0
  then obtain n where n: "fuel = Suc (Suc n)"
    by (metis Suc_lessE add_0 less_Suc_eq_0_disj not_less_eq plus_1_eq_Suc)
  show ?case using 0
    by (simp add: n wait_while_set_Suc mock_value_def) (simp add: mock_tick_def)
next
  case (Suc k)
  from fuel_two [OF Suc.prems(2)] obtain n where n: "fuel = Suc n" "Suc k < n" by blast
  let ?s = "snd (read_reg mock ADC_CR s)"
  have h: "mock_tick (hw s) = (hw s)\<lparr>job := Calibrating k\<rparr>"
    using Suc.prems(1) by (simp add: mock_tick_def)
  have "job (hw ?s) = Calibrating k" "k + 1 < n" "cr (hw ?s) AND ADC_CR_ADCAL \<noteq> 0"
    using h n Suc.prems(3) by simp_all
  from Suc.IH [OF this] show ?case
    using Suc.prems(3) by (simp add: n wait_while_set_Suc mock_value_def h)
qed

lemma mock_wait_disabling:
  assumes "job (hw s) = Disabling k" and "k + 1 < fuel" and "cr (hw s) AND ADC_CR_ADEN \<noteq> 0"
  shows "returned (wait_while_set fuel mock ADC_CR ADC_CR_ADEN s) = Some ()
       \<and> hw (state_of (wait_while_set fuel mock ADC_CR ADC_CR_ADEN s)) =
           (hw s)\<lparr>cr := cr (hw s) AND NOT (ADC_CR_ADEN OR ADC_CR_ADDIS), job := Idle\<rparr>"
  using assms
proof (induction k arbitrary: fuel s)
  case 0
  then obtain n where n: "fuel = Suc (Suc n)"
    by (metis Suc_lessE add_0 less_Suc_eq_0_disj not_less_eq plus_1_eq_Suc)
  show ?case using 0
    by (simp add: n wait_while_set_Suc mock_value_def) (simp add: mock_tick_def)
next
  case (Suc k)
  from fuel_two [OF Suc.prems(2)] obtain n where n: "fuel = Suc n" "Suc k < n" by blast
  let ?s = "snd (read_reg mock ADC_CR s)"
  have h: "mock_tick (hw s) = (hw s)\<lparr>job := Disabling k\<rparr>"
    using Suc.prems(1) by (simp add: mock_tick_def)
  have "job (hw ?s) = Disabling k" "k + 1 < n" "cr (hw ?s) AND ADC_CR_ADEN \<noteq> 0"
    using h n Suc.prems(3) by simp_all
  from Suc.IH [OF this] show ?case
    using Suc.prems(3) by (simp add: n wait_while_set_Suc mock_value_def h)
qed


lemma mask_bits:
  "bit ADC_CR_ADEN n \<longleftrightarrow> n = 0"
  "bit ADC_CR_ADDIS n \<longleftrightarrow> n = 1"
  "bit ADC_CR_ADSTART n \<longleftrightarrow> n = 2"
  "bit ADC_CR_ADVREGEN n \<longleftrightarrow> n = 28"
  "bit ADC_CR_DEEPPWD n \<longleftrightarrow> n = 29"
  "bit ADC_CR_ADCAL n \<longleftrightarrow> n = 31"
  "bit ADC_ISR_ADRDY n \<longleftrightarrow> n = 0"
  "bit ADC_ISR_EOC n \<longleftrightarrow> n = 2"
proof -
  have e: "ADC_CR_ADEN = 2 ^ 0" "ADC_CR_ADDIS = 2 ^ 1" "ADC_CR_ADSTART = 2 ^ 2"
    "ADC_CR_ADVREGEN = 2 ^ 28" "ADC_CR_DEEPPWD = 2 ^ 29" "ADC_CR_ADCAL = 2 ^ 31"
    "ADC_ISR_ADRDY = 2 ^ 0" "ADC_ISR_EOC = 2 ^ 2"
    by (simp_all add: mask_defs)
  show "bit ADC_CR_ADEN n \<longleftrightarrow> n = 0"
  "bit ADC_CR_ADDIS n \<longleftrightarrow> n = 1"
  "bit ADC_CR_ADSTART n \<longleftrightarrow> n = 2"
  "bit ADC_CR_ADVREGEN n \<longleftrightarrow> n = 28"
  "bit ADC_CR_DEEPPWD n \<longleftrightarrow> n = 29"
  "bit ADC_CR_ADCAL n \<longleftrightarrow> n = 31"
  "bit ADC_ISR_ADRDY n \<longleftrightarrow> n = 0"
  "bit ADC_ISR_EOC n \<longleftrightarrow> n = 2"
    by (simp_all only: e bit_exp_iff) (auto simp: possible_bit_word)
qed

lemma test_bits:
  "x AND ADC_CR_ADEN = 0 \<longleftrightarrow> \<not> bit x 0"
  "x AND ADC_CR_ADDIS = 0 \<longleftrightarrow> \<not> bit x 1"
  "x AND ADC_CR_ADSTART = 0 \<longleftrightarrow> \<not> bit x 2"
  "x AND ADC_CR_ADCAL = 0 \<longleftrightarrow> \<not> bit x 31"
  "x AND ADC_ISR_ADRDY = 0 \<longleftrightarrow> \<not> bit x 0"
  "x AND ADC_ISR_EOC = 0 \<longleftrightarrow> \<not> bit x 2"
proof -
  have e: "ADC_CR_ADEN = 2 ^ 0" "ADC_CR_ADDIS = 2 ^ 1" "ADC_CR_ADSTART = 2 ^ 2"
    "ADC_CR_ADCAL = 2 ^ 31" "ADC_ISR_ADRDY = 2 ^ 0" "ADC_ISR_EOC = 2 ^ 2"
    by (simp_all add: mask_defs)
  show   "x AND ADC_CR_ADEN = 0 \<longleftrightarrow> \<not> bit x 0"
  "x AND ADC_CR_ADDIS = 0 \<longleftrightarrow> \<not> bit x 1"
  "x AND ADC_CR_ADSTART = 0 \<longleftrightarrow> \<not> bit x 2"
  "x AND ADC_CR_ADCAL = 0 \<longleftrightarrow> \<not> bit x 31"
  "x AND ADC_ISR_ADRDY = 0 \<longleftrightarrow> \<not> bit x 0"
  "x AND ADC_ISR_EOC = 0 \<longleftrightarrow> \<not> bit x 2"
    unfolding e by (simp_all only: and_exp_eq_0_iff_not_bit)
qed


lemma rw_write_back:
  "(x AND NOT a AND NOT b OR (x OR c) AND (a OR b)) OR c = x OR (c :: 'a::len word)"
  by (rule bit_eqI) (auto simp: bit_simps)

lemma and_not_self_or: "x AND NOT x AND NOT e = (0 :: 'a::len word)"
  by (rule bit_eqI) (auto simp: bit_simps)

lemma or_and_not_same: "x AND m = 0 \<Longrightarrow> (x OR m) AND NOT m = (x :: 'a::len word)"
  by (rule bit_eqI) (auto simp: bit_simps bit_eq_iff)

lemma mask_31: "(0x1F :: 'a::len word) = mask 5"
  by (simp add: mask_eq_exp_minus_1)

lemma sq1_field:
  "drop_bit 6 ((x AND NOT (push_bit 6 0x1F)) OR push_bit 6 (ucast (ch :: u8))) AND 0x1F
     = ucast ch AND (0x1F :: u32)"
  unfolding mask_31 by (rule bit_word_eqI) (auto simp: bit_simps)

lemma sq1_field_small:
  "ch < 32 \<Longrightarrow> ucast (ch :: u8) AND (0x1F :: u32) = ucast ch"
proof -
  assume "ch < 32"
  then have a: "ch AND mask 5 = ch"
    using less_mask_eq [of ch 5] by simp
  have "ucast ch AND (mask 5 :: u32) = ucast (ch AND mask 5)"
    by (rule bit_word_eqI) (auto simp: bit_simps)
  then show ?thesis
    unfolding mask_31 a .
qed




lemma mock_adc_read_start:
  assumes "mock_ready (hw s)"
  shows "hw (adc_read_start mock ch s) =
     (hw s)\<lparr>sqr1 := (sqr1 (hw s) AND NOT (push_bit 6 0x1F)) OR push_bit 6 (ucast ch), isr := 0,
       cr := cr (hw s) OR ADC_CR_ADSTART, job := Converting (latency (hw s))\<rparr>"
  using assms
  by (simp add: adc_read_start_def mock_ready_def mock_write_def mock_value_def mock_write_cr_def Let_def
       test_bits bit_simps mask_bits rw_write_back and_not_self_or)


lemma mock_adc_read:
  assumes "mock_ready (hw s)" and "latency (hw s) + 1 < fuel"
  shows "returned (adc_read fuel mock ch s) =
           Some (ucast (analog (hw s) (ucast ch AND 0x1F) AND 0xFFF))"
    and "hw (state_of (adc_read fuel mock ch s)) =
           (hw s)\<lparr>sqr1 := (sqr1 (hw s) AND NOT (push_bit 6 0x1F)) OR push_bit 6 (ucast ch),
             isr := 0, dr := analog (hw s) (ucast ch AND 0x1F) AND 0xFFF, job := Idle\<rparr>"
proof -
  let ?s1 = "adc_read_start mock ch s"
  note h1 = mock_adc_read_start [OF assms(1), of ch]
  have "job (hw ?s1) = Converting (latency (hw s))" "isr (hw ?s1) AND ADC_ISR_EOC = 0"
    by (simp_all add: h1)
  from mock_wait_converting [OF this(1) assms(2) this(2)]
  have w: "returned (wait_while_clear fuel mock ADC_ISR ADC_ISR_EOC ?s1) = Some ()"
    and hw2: "hw (state_of (wait_while_clear fuel mock ADC_ISR ADC_ISR_EOC ?s1)) =
      (hw s)\<lparr>sqr1 := (sqr1 (hw s) AND NOT (push_bit 6 0x1F)) OR push_bit 6 (ucast ch),
        isr := ADC_ISR_EOC, cr := cr (hw s), dr := analog (hw s) (ucast ch AND 0x1F) AND 0xFFF,
        job := Idle\<rparr>"
    using assms(1) sq1_field [of "sqr1 (hw s)" ch]
    by (simp_all add: h1 mock_ready_def or_and_not_same)
  show "returned (adc_read fuel mock ch s) =
           Some (ucast (analog (hw s) (ucast ch AND 0x1F) AND 0xFFF))"
  proof (cases fuel mock ch s rule: adc_read_cases)
    case (spin s1)
    with w show ?thesis by simp
  next
    case (ret s1)
    with hw2 show ?thesis by (simp add: mock_value_def)
  qed
  show "hw (state_of (adc_read fuel mock ch s)) =
           (hw s)\<lparr>sqr1 := (sqr1 (hw s) AND NOT (push_bit 6 0x1F)) OR push_bit 6 (ucast ch),
             isr := 0, dr := analog (hw s) (ucast ch AND 0x1F) AND 0xFFF, job := Idle\<rparr>"
  proof (cases fuel mock ch s rule: adc_read_cases)
    case (spin s1)
    with w show ?thesis by simp
  next
    case (ret s1)
    with hw2 show ?thesis by simp
  qed
qed

lemma adc_init_unfold:
  "adc_init fuel P s =
     and_then (adc_init_disable fuel P (adc_init_clocks P s))
       (\<lambda>_ s1. and_then (wait_while_set fuel P ADC_CR ADC_CR_ADCAL (adc_init_calibrate P s1))
          (\<lambda>_ s2. wait_while_clear fuel P ADC_ISR ADC_ISR_ADRDY (adc_init_configure P s2)))"
  by (simp add: adc_init_def adc_init_clocks_def adc_init_disable_def adc_init_calibrate_def
      adc_init_configure_def Let_def case_prod_beta)

lemma mock_adc_init_clocks:
  "job (hw s) = Idle \<Longrightarrow> hw (adc_init_clocks mock s) =
     (hw s)\<lparr>ahb2enr := ahb2enr (hw s) OR RCC_AHB2ENR_ADCEN, ccipr := ccipr (hw s) OR RCC_CCIPR_ADCSEL,
       ccr := (ccr (hw s) AND NOT ADC_CCR_PRESC) OR ADC_CCR_PRESC_2\<rparr>"
  by (simp add: adc_init_clocks_def mock_write_def mock_value_def)

lemma mock_adc_init_disable:
  "mock_off (hw s) \<Longrightarrow> adc_init_disable fuel mock s = Ret () (snd (read_reg mock ADC_CR s))"
  by (simp add: adc_init_disable_def mock_off_def mock_value_def)


lemma cr_store:
  "c AND NOT ADC_CR_DEEPPWD AND NOT ADC_CR_ADVREGEN OR
     (c AND NOT ADC_CR_DEEPPWD) AND (ADC_CR_DEEPPWD OR ADC_CR_ADVREGEN) = c AND NOT ADC_CR_DEEPPWD"
  "c AND NOT ADC_CR_DEEPPWD AND NOT ADC_CR_ADVREGEN OR
     (c OR ADC_CR_ADVREGEN) AND (ADC_CR_DEEPPWD OR ADC_CR_ADVREGEN) = c OR ADC_CR_ADVREGEN"
  "c AND NOT ADC_CR_DEEPPWD AND NOT ADC_CR_ADVREGEN OR
     (c OR ADC_CR_ADCAL) AND (ADC_CR_DEEPPWD OR ADC_CR_ADVREGEN) = c"
  "c AND NOT ADC_CR_DEEPPWD AND NOT ADC_CR_ADVREGEN OR
     (c OR ADC_CR_ADEN) AND (ADC_CR_DEEPPWD OR ADC_CR_ADVREGEN) = c"
  "c AND NOT ADC_CR_DEEPPWD AND NOT ADC_CR_ADVREGEN OR
     (c OR ADC_CR_ADSTART) AND (ADC_CR_DEEPPWD OR ADC_CR_ADVREGEN) = c"
  "c AND NOT ADC_CR_DEEPPWD AND NOT ADC_CR_ADVREGEN OR
     (c OR ADC_CR_ADDIS) AND (ADC_CR_DEEPPWD OR ADC_CR_ADVREGEN) = c"
  by (rule bit_eqI, auto simp: bit_simps mask_bits)+


lemma mock_adc_init_calibrate:
  "mock_off (hw s) \<Longrightarrow> hw (adc_init_calibrate mock s) =
     (hw s)\<lparr>cr := (cr (hw s) AND NOT ADC_CR_DEEPPWD OR ADC_CR_ADVREGEN) OR ADC_CR_ADCAL,
       job := Calibrating (latency (hw s))\<rparr>"
  by (simp add: adc_init_calibrate_def mock_off_def mock_write_def mock_value_def mock_write_cr_def Let_def
       test_bits bit_simps mask_bits cr_store and_not_self_or)

lemma mock_adc_init_configure:
  "mock_off (hw s) \<Longrightarrow> hw (adc_init_configure mock s) =
     (hw s)\<lparr>cfgr := cfgr (hw s) AND NOT ADC_CFGR_CONT AND NOT ADC_CFGR_RES,
       smpr1 := smpr1 (hw s) AND NOT (push_bit (unat ADC_CHANNEL * 3) 7)
                  OR push_bit (unat ADC_CHANNEL * 3) SAMP_TIME,
       sqr1 := sqr1 (hw s) AND NOT ADC_SQR1_L,
       cr := cr (hw s) OR ADC_CR_ADEN, job := Enabling (latency (hw s))\<rparr>"
  by (simp add: adc_init_configure_def mock_off_def mock_write_def mock_value_def mock_write_cr_def Let_def
       test_bits bit_simps mask_bits cr_store and_not_self_or and.assoc)

lemma returned_unit: "returned m = Some () \<Longrightarrow> m = Ret () (state_of m)"
  by (cases m) simp_all

lemma mock_adc_init:
  assumes "mock_off (hw s)" and "latency (hw s) + 1 < fuel"
  shows "returned (adc_init fuel mock s) = Some ()"
    and "hw (state_of (adc_init fuel mock s)) =
      (hw s)\<lparr>ahb2enr := ahb2enr (hw s) OR RCC_AHB2ENR_ADCEN,
        ccipr := ccipr (hw s) OR RCC_CCIPR_ADCSEL,
        ccr := (ccr (hw s) AND NOT ADC_CCR_PRESC) OR ADC_CCR_PRESC_2,
        cfgr := cfgr (hw s) AND NOT ADC_CFGR_CONT AND NOT ADC_CFGR_RES,
        smpr1 := smpr1 (hw s) AND NOT (push_bit (unat ADC_CHANNEL * 3) 7)
                  OR push_bit (unat ADC_CHANNEL * 3) SAMP_TIME,
        sqr1 := sqr1 (hw s) AND NOT ADC_SQR1_L,
        cr := (cr (hw s) AND NOT ADC_CR_DEEPPWD OR ADC_CR_ADVREGEN) OR ADC_CR_ADEN,
        isr := isr (hw s) OR ADC_ISR_ADRDY, job := Idle\<rparr>"
proof -
  have idle: "job (hw s) = Idle" using assms(1) by (simp add: mock_off_def)
  let ?s1 = "adc_init_clocks mock s"
  note h1 = mock_adc_init_clocks [OF idle]
  have off1: "mock_off (hw ?s1)" using assms(1) by (simp add: h1 mock_off_def)
  let ?s1' = "snd (read_reg mock ADC_CR ?s1)"
  have d: "adc_init_disable fuel mock ?s1 = Ret () ?s1'"
    by (rule mock_adc_init_disable [OF off1])
  have h1': "hw ?s1' = hw ?s1" using off1 by (simp add: mock_off_def)
  have off1': "mock_off (hw ?s1')" using off1 h1' by simp
  let ?s2 = "adc_init_calibrate mock ?s1'"
  note h2 = mock_adc_init_calibrate [OF off1']
  let ?w2 = "wait_while_set fuel mock ADC_CR ADC_CR_ADCAL ?s2"
  have "job (hw ?s2) = Calibrating (latency (hw s))" "latency (hw s) + 1 < fuel"
    "cr (hw ?s2) AND ADC_CR_ADCAL \<noteq> 0"
    using assms(2) idle by (simp_all add: h2 h1 mock_adc_init_calibrate [OF off1', simplified])
  from mock_wait_calibrating [OF this]
  have w2: "?w2 = Ret () (state_of ?w2)"
    and h3: "hw (state_of ?w2) =
       (hw ?s1)\<lparr>cr := cr (hw ?s1) AND NOT ADC_CR_DEEPPWD OR ADC_CR_ADVREGEN, job := Idle\<rparr>"
    using off1
    by (simp_all add: returned_unit h2 h1' mock_off_def or_and_not_same test_bits bit_simps mask_bits)
  have off3: "mock_off (hw (state_of ?w2))"
    using off1 by (simp add: h3 mock_off_def test_bits bit_simps mask_bits)
  let ?s4 = "adc_init_configure mock (state_of ?w2)"
  note h4 = mock_adc_init_configure [OF off3]
  let ?w4 = "wait_while_clear fuel mock ADC_ISR ADC_ISR_ADRDY ?s4"
  have "job (hw ?s4) = Enabling (latency (hw s))" "latency (hw s) + 1 < fuel"
    "isr (hw ?s4) AND ADC_ISR_ADRDY = 0"
    using assms(2) off1 by (simp_all add: h4 h3 h1 mock_off_def)
  from mock_wait_enabling [OF this]
  have w4: "returned ?w4 = Some ()"
    and h5: "hw (state_of ?w4) = (hw ?s4)\<lparr>isr := isr (hw ?s4) OR ADC_ISR_ADRDY, job := Idle\<rparr>"
    by simp_all
  have u: "adc_init fuel mock s = ?w4"
    by (subst adc_init_unfold, subst d, simp, subst w2, simp)
  show "returned (adc_init fuel mock s) = Some ()"
    using w4 u by simp
  show "hw (state_of (adc_init fuel mock s)) =
      (hw s)\<lparr>ahb2enr := ahb2enr (hw s) OR RCC_AHB2ENR_ADCEN,
        ccipr := ccipr (hw s) OR RCC_CCIPR_ADCSEL,
        ccr := (ccr (hw s) AND NOT ADC_CCR_PRESC) OR ADC_CCR_PRESC_2,
        cfgr := cfgr (hw s) AND NOT ADC_CFGR_CONT AND NOT ADC_CFGR_RES,
        smpr1 := smpr1 (hw s) AND NOT (push_bit (unat ADC_CHANNEL * 3) 7)
                  OR push_bit (unat ADC_CHANNEL * 3) SAMP_TIME,
        sqr1 := sqr1 (hw s) AND NOT ADC_SQR1_L,
        cr := (cr (hw s) AND NOT ADC_CR_DEEPPWD OR ADC_CR_ADVREGEN) OR ADC_CR_ADEN,
        isr := isr (hw s) OR ADC_ISR_ADRDY, job := Idle\<rparr>"
    unfolding u h5 h4 h3 h1 by simp
qed


lemma main_iteration_ret:
  assumes "adc_read fuel P ADC_CHANNEL s = Ret sample s1"
  shows "main_iteration fuel P s =
     Ret () (delayMicroseconds SAMP_PERIOD (digitalWrite PIN_SERIAL False
       (serial_write (ucast (drop_bit 8 (ucast sample :: u32)))
         (serial_write (ucast ((ucast sample :: u32) AND 0xFF))
           (serial_write 0xAA (serial_write 0xAA (digitalWrite PIN_SERIAL True s1)))))))"
  by (simp add: main_iteration_def assms Let_def)

lemma main_iteration_spin:
  assumes "adc_read fuel P ADC_CHANNEL s = Spin s1"
  shows "main_iteration fuel P s = Spin s1"
  by (simp add: main_iteration_def assms)

lemma hw_rmw_trace_free [simp]:
  "hw (log_event e s) = hw s"
  by (simp add: log_event_def)

lemma mock_main_iteration:
  assumes "mock_ready (hw s)" and "latency (hw s) + 1 < fuel"
  shows "returned (main_iteration fuel mock s) = Some ()"
    and "serial (state_of (main_iteration fuel mock s)) =
           serial s @ [0xAA, 0xAA,
             ucast (analog (hw s) 5 AND 0xFF), ucast (drop_bit 8 (analog (hw s) 5 AND 0xFFF))]"
    and "hw (state_of (main_iteration fuel mock s)) =
           (hw s)\<lparr>sqr1 := (sqr1 (hw s) AND NOT (push_bit 6 0x1F)) OR push_bit 6 5,
             isr := 0, dr := analog (hw s) 5 AND 0xFFF, job := Idle\<rparr>"
proof -
  note a = mock_adc_read [OF assms, of ADC_CHANNEL]
  let ?v = "ucast (analog (hw s) (ucast ADC_CHANNEL AND 0x1F) AND 0xFFF) :: u16"
  have r: "adc_read fuel mock ADC_CHANNEL s = Ret ?v (state_of (adc_read fuel mock ADC_CHANNEL s))"
    using a(1) by (simp add: returned_Some_iff)
  note m = main_iteration_ret [OF r]
  have c: "ucast ADC_CHANNEL AND (0x1F :: u32) = 5" by (simp add: ADC_CHANNEL_def)
  show "returned (main_iteration fuel mock s) = Some ()" by (simp add: m)
  have lo: "(ucast ((ucast (ucast (x AND 0xFFF :: u32) :: u16) :: u32) AND 0xFF) :: u8) = ucast (x AND 0xFF)" for x
    unfolding mask_255 mask_4095 by (rule bit_word_eqI) (auto simp: bit_simps)
  have hi: "(ucast (drop_bit 8 (ucast (ucast (x AND 0xFFF :: u32) :: u16) :: u32)) :: u8) = ucast (drop_bit 8 (x AND 0xFFF))" for x
    unfolding mask_4095 by (rule bit_word_eqI) (auto simp: bit_simps)
  show "serial (state_of (main_iteration fuel mock s)) =
           serial s @ [0xAA, 0xAA,
             ucast (analog (hw s) 5 AND 0xFF), ucast (drop_bit 8 (analog (hw s) 5 AND 0xFFF))]"
    by (simp add: m c lo hi)
  show "hw (state_of (main_iteration fuel mock s)) =
           (hw s)\<lparr>sqr1 := (sqr1 (hw s) AND NOT (push_bit 6 0x1F)) OR push_bit 6 5,
             isr := 0, dr := analog (hw s) 5 AND 0xFFF, job := Idle\<rparr>"
    using a(2) by (simp add: m c ADC_CHANNEL_def)
qed


lemma mock_off_reset [simp]: "mock_off (mock_reset lat ain)"
  by (simp add: mock_off_def mock_reset_def mask_defs)

lemma mock_ready_after_init:
  assumes "mock_off (hw s)" and "latency (hw s) + 1 < fuel"
  shows "mock_ready (hw (state_of (adc_init fuel mock s)))"
    and "latency (hw (state_of (adc_init fuel mock s))) = latency (hw s)"
    and "analog (hw (state_of (adc_init fuel mock s))) = analog (hw s)"
  using assms(1)
  by (simp_all add: mock_adc_init(2) [OF assms] mock_ready_def mock_off_def test_bits bit_simps mask_bits)


lemma state_of_and_then_pres:
  assumes "Q (state_of m)" and "\<And>a s. Q s \<Longrightarrow> Q (state_of (f a s))"
  shows "Q (state_of (and_then m f))"
  using assms by (cases m) simp_all

lemma phase_serial [simp]:
  "serial (adc_init_clocks P s) = serial s"
  "serial (adc_init_calibrate P s) = serial s"
  "serial (adc_init_configure P s) = serial s"
  "serial (state_of (adc_init_disable n P s)) = serial s"
  by (simp_all add: adc_init_clocks_def adc_init_calibrate_def adc_init_configure_def
      adc_init_disable_def)

lemma phase_levels [simp]:
  "levels (adc_init_clocks P s) = levels s"
  "levels (adc_init_calibrate P s) = levels s"
  "levels (adc_init_configure P s) = levels s"
  "levels (state_of (adc_init_disable n P s)) = levels s"
  by (simp_all add: adc_init_clocks_def adc_init_calibrate_def adc_init_configure_def
      adc_init_disable_def)

lemma adc_init_serial [simp]: "serial (state_of (adc_init n P s)) = serial s"
  unfolding adc_init_unfold
  by (rule state_of_and_then_pres, simp, rule state_of_and_then_pres, simp_all)

lemma adc_init_levels [simp]: "levels (state_of (adc_init n P s)) = levels s"
  unfolding adc_init_unfold
  by (rule state_of_and_then_pres, simp, rule state_of_and_then_pres, simp_all)

lemma adc_read_levels_ret:
  assumes "returned (adc_read n P ch s) = Some v"
  shows "levels (state_of (adc_read n P ch s)) = (levels s)(PIN_SAMPLE := False)"
proof (cases n P ch s rule: adc_read_cases)
  case (spin s1)
  then show ?thesis using assms by simp
next
  case (ret s1)
  then show ?thesis
    using wait_levels(2) [of n P ADC_ISR ADC_ISR_EOC "adc_read_start P ch s"] by simp
qed

lemma since_self [simp]: "since s s = []"
  by (simp add: since_def)

lemma since_append: "trace s' = trace s @ t \<Longrightarrow> since s s' = t"
  by (simp add: since_def)

lemma wait_while_clear_trace:
  "\<exists>t. trace (state_of (wait_while_clear n P r m s)) = trace s @ t
       \<and> list_all (\<lambda>x. is_read r (fst x)) t"
  by (rule wait_while_clear_inv [where I = "\<lambda>s'. \<exists>t. trace s' = trace s @ t
       \<and> list_all (\<lambda>x. is_read r (fst x)) t"]) (auto simp: trace_prims)

lemma wait_while_set_trace:
  "\<exists>t. trace (state_of (wait_while_set n P r m s)) = trace s @ t
       \<and> list_all (\<lambda>x. is_read r (fst x)) t"
  by (rule wait_while_set_inv [where I = "\<lambda>s'. \<exists>t. trace s' = trace s @ t
       \<and> list_all (\<lambda>x. is_read r (fst x)) t"]) (auto simp: trace_prims)

text \<open>The trace of one call of \<open>adc_read\<close>, whatever its outcome.\<close>

lemma adc_read_start_trace:
  "\<exists>a b h5.
     trace (adc_read_start P ch s) = trace s @
       [(DigitalWrite PIN_SAMPLE True, hw s),
        (Read ADC_SQR1 a, hw s),
        (Write ADC_SQR1 (a AND NOT (push_bit 6 0x1F)), after_read P ADC_SQR1 (hw s)),
        (Read ADC_SQR1 b, p_write P ADC_SQR1 (a AND NOT (push_bit 6 0x1F)) (after_read P ADC_SQR1 (hw s))),
        (Write ADC_SQR1 (b OR push_bit 6 (ucast ch)),
           after_read P ADC_SQR1 (p_write P ADC_SQR1 (a AND NOT (push_bit 6 0x1F)) (after_read P ADC_SQR1 (hw s)))),
        (Read ADC_ISR (obs P ADC_ISR h5), h5),
        (Write ADC_ISR (obs P ADC_ISR h5 OR ADC_ISR_EOC), after_read P ADC_ISR h5),
        (Read ADC_CR (obs P ADC_CR (p_write P ADC_ISR (obs P ADC_ISR h5 OR ADC_ISR_EOC) (after_read P ADC_ISR h5))),
           p_write P ADC_ISR (obs P ADC_ISR h5 OR ADC_ISR_EOC) (after_read P ADC_ISR h5)),
        (Write ADC_CR
           (obs P ADC_CR (p_write P ADC_ISR (obs P ADC_ISR h5 OR ADC_ISR_EOC) (after_read P ADC_ISR h5))
              OR ADC_CR_ADSTART),
           after_read P ADC_CR (p_write P ADC_ISR (obs P ADC_ISR h5 OR ADC_ISR_EOC) (after_read P ADC_ISR h5)))]"
proof -
  define s3 where "s3 = set_bits P ADC_SQR1 (push_bit 6 (ucast ch))
    (clear_bits P ADC_SQR1 (push_bit 6 0x1F) (digitalWrite PIN_SAMPLE True s))"
  have t3: "trace s3 = trace s @
       [(DigitalWrite PIN_SAMPLE True, hw s),
        (Read ADC_SQR1 (obs P ADC_SQR1 (hw s)), hw s),
        (Write ADC_SQR1 (obs P ADC_SQR1 (hw s) AND NOT (push_bit 6 0x1F)), after_read P ADC_SQR1 (hw s)),
        (Read ADC_SQR1 (obs P ADC_SQR1 (p_write P ADC_SQR1 (obs P ADC_SQR1 (hw s) AND NOT (push_bit 6 0x1F)) (after_read P ADC_SQR1 (hw s)))),
           p_write P ADC_SQR1 (obs P ADC_SQR1 (hw s) AND NOT (push_bit 6 0x1F)) (after_read P ADC_SQR1 (hw s))),
        (Write ADC_SQR1 (obs P ADC_SQR1 (p_write P ADC_SQR1 (obs P ADC_SQR1 (hw s) AND NOT (push_bit 6 0x1F)) (after_read P ADC_SQR1 (hw s))) OR push_bit 6 (ucast ch)),
           after_read P ADC_SQR1 (p_write P ADC_SQR1 (obs P ADC_SQR1 (hw s) AND NOT (push_bit 6 0x1F)) (after_read P ADC_SQR1 (hw s))))]"
    by (simp add: s3_def trace_prims)
  have "adc_read_start P ch s = set_bits P ADC_CR ADC_CR_ADSTART (set_bits P ADC_ISR ADC_ISR_EOC s3)"
    by (simp add: adc_read_start_def s3_def)
  then have "trace (adc_read_start P ch s) = trace s3 @
     [(Read ADC_ISR (obs P ADC_ISR (hw s3)), hw s3),
        (Write ADC_ISR (obs P ADC_ISR (hw s3) OR ADC_ISR_EOC), after_read P ADC_ISR (hw s3)),
        (Read ADC_CR (obs P ADC_CR (p_write P ADC_ISR (obs P ADC_ISR (hw s3) OR ADC_ISR_EOC) (after_read P ADC_ISR (hw s3)))),
           p_write P ADC_ISR (obs P ADC_ISR (hw s3) OR ADC_ISR_EOC) (after_read P ADC_ISR (hw s3))),
        (Write ADC_CR
           (obs P ADC_CR (p_write P ADC_ISR (obs P ADC_ISR (hw s3) OR ADC_ISR_EOC) (after_read P ADC_ISR (hw s3)))
              OR ADC_CR_ADSTART),
           after_read P ADC_CR (p_write P ADC_ISR (obs P ADC_ISR (hw s3) OR ADC_ISR_EOC) (after_read P ADC_ISR (hw s3))))]"
    by (simp add: trace_prims)
  with t3 show ?thesis by (intro exI [where x = "hw s3"] exI) simp
qed

lemma wait_while_clear_last:
  assumes "returned (wait_while_clear n P r m s) = Some u"
  shows "\<exists>t h. trace (state_of (wait_while_clear n P r m s)) = trace s @ t @ [(Read r (obs P r h), h)]
           \<and> obs P r h AND m \<noteq> 0 \<and> list_all (\<lambda>x. is_read r (fst x)) t
           \<and> hw (state_of (wait_while_clear n P r m s)) = after_read P r h"
proof -
  let ?I = "\<lambda>s'. \<exists>t. trace s' = trace s @ t \<and> list_all (\<lambda>x. is_read r (fst x)) t"
  have "case wait_while_clear n P r m s of
           Spin s' \<Rightarrow> ?I s'
         | Ret _ s' \<Rightarrow> \<exists>s0. ?I s0 \<and> s' = snd (read_reg P r s0) \<and> obs P r (hw s0) AND m \<noteq> 0"
    by (rule wait_while_clear_rule) (auto simp: trace_prims)
  with assms obtain s0 t where "wait_while_clear n P r m s = Ret u (snd (read_reg P r s0))"
    "trace s0 = trace s @ t" "list_all (\<lambda>x. is_read r (fst x)) t" "obs P r (hw s0) AND m \<noteq> 0"
    by (cases "wait_while_clear n P r m s") auto
  then show ?thesis
    by (intro exI [where x = t] exI [where x = "hw s0"]) (simp add: trace_prims)
qed

lemma wait_while_set_last:
  assumes "returned (wait_while_set n P r m s) = Some u"
  shows "\<exists>t h. trace (state_of (wait_while_set n P r m s)) = trace s @ t @ [(Read r (obs P r h), h)]
           \<and> obs P r h AND m = 0 \<and> list_all (\<lambda>x. is_read r (fst x)) t
           \<and> hw (state_of (wait_while_set n P r m s)) = after_read P r h"
proof -
  let ?I = "\<lambda>s'. \<exists>t. trace s' = trace s @ t \<and> list_all (\<lambda>x. is_read r (fst x)) t"
  have "case wait_while_set n P r m s of
           Spin s' \<Rightarrow> ?I s'
         | Ret _ s' \<Rightarrow> \<exists>s0. ?I s0 \<and> s' = snd (read_reg P r s0) \<and> obs P r (hw s0) AND m = 0"
    by (rule wait_while_set_rule) (auto simp: trace_prims)
  with assms obtain s0 t where "wait_while_set n P r m s = Ret u (snd (read_reg P r s0))"
    "trace s0 = trace s @ t" "list_all (\<lambda>x. is_read r (fst x)) t" "obs P r (hw s0) AND m = 0"
    by (cases "wait_while_set n P r m s") auto
  then show ?thesis
    by (intro exI [where x = t] exI [where x = "hw s0"]) (simp add: trace_prims)
qed

text \<open>What \<open>adc_read\<close> adds after its wait, when it returns.\<close>

lemma adc_read_tail:
  assumes "returned (adc_read n P ch s) = Some v"
  shows "\<exists>polls h h9.
      trace (state_of (adc_read n P ch s)) =
        trace (adc_read_start P ch s) @ polls @
          [(Read ADC_ISR (obs P ADC_ISR h), h),
           (DigitalWrite PIN_SAMPLE False, h9), (Read ADC_DR (obs P ADC_DR h9), h9)]
      \<and> list_all (\<lambda>x. is_read ADC_ISR (fst x)) polls
      \<and> obs P ADC_ISR h AND ADC_ISR_EOC \<noteq> 0
      \<and> h9 = after_read P ADC_ISR h
      \<and> v = ucast (obs P ADC_DR h9)"
proof (cases n P ch s rule: adc_read_cases)
  case (spin s1)
  with assms show ?thesis by simp
next
  case (ret s1)
  then have "returned (wait_while_clear n P ADC_ISR ADC_ISR_EOC (adc_read_start P ch s)) = Some ()"
    by simp
  from wait_while_clear_last [OF this] ret(1) obtain t h where
    "trace s1 = trace (adc_read_start P ch s) @ t @ [(Read ADC_ISR (obs P ADC_ISR h), h)]"
    "obs P ADC_ISR h AND ADC_ISR_EOC \<noteq> 0" "list_all (\<lambda>x. is_read ADC_ISR (fst x)) t"
    "hw s1 = after_read P ADC_ISR h"
    by auto
  with ret(2) assms show ?thesis
    by (intro exI [where x = t] exI [where x = h] exI [where x = "hw s1"]) (simp add: trace_prims)
qed

lemma adc_read_spin:
  assumes "returned (adc_read n P ch s) = None"
  shows "\<exists>polls. trace (state_of (adc_read n P ch s)) = trace (adc_read_start P ch s) @ polls
      \<and> list_all (\<lambda>x. is_read ADC_ISR (fst x)) polls"
proof (cases n P ch s rule: adc_read_cases)
  case (spin s1)
  with wait_while_clear_trace [of n P ADC_ISR ADC_ISR_EOC "adc_read_start P ch s"]
  show ?thesis by simp
next
  case (ret s1)
  with assms show ?thesis by simp
qed

lemma adc_read_start_since:
  "\<exists>pre h5.
     trace (adc_read_start P ch s) = trace s @ (DigitalWrite PIN_SAMPLE True, hw s) # pre @
       [(Read ADC_ISR (obs P ADC_ISR h5), h5),
        (Write ADC_ISR (obs P ADC_ISR h5 OR ADC_ISR_EOC), after_read P ADC_ISR h5),
        (Read ADC_CR (obs P ADC_CR (p_write P ADC_ISR (obs P ADC_ISR h5 OR ADC_ISR_EOC) (after_read P ADC_ISR h5))),
           p_write P ADC_ISR (obs P ADC_ISR h5 OR ADC_ISR_EOC) (after_read P ADC_ISR h5)),
        (Write ADC_CR
           (obs P ADC_CR (p_write P ADC_ISR (obs P ADC_ISR h5 OR ADC_ISR_EOC) (after_read P ADC_ISR h5))
              OR ADC_CR_ADSTART),
           after_read P ADC_CR (p_write P ADC_ISR (obs P ADC_ISR h5 OR ADC_ISR_EOC) (after_read P ADC_ISR h5)))]
     \<and> list_all (\<lambda>x. is_read ADC_SQR1 (fst x) \<or> is_write ADC_SQR1 (fst x)) pre"
proof -
  from adc_read_start_trace [of P ch s] obtain a b h5 where
    "trace (adc_read_start P ch s) = trace s @
       [(DigitalWrite PIN_SAMPLE True, hw s),
        (Read ADC_SQR1 a, hw s),
        (Write ADC_SQR1 (a AND NOT (push_bit 6 0x1F)), after_read P ADC_SQR1 (hw s)),
        (Read ADC_SQR1 b, p_write P ADC_SQR1 (a AND NOT (push_bit 6 0x1F)) (after_read P ADC_SQR1 (hw s))),
        (Write ADC_SQR1 (b OR push_bit 6 (ucast ch)),
           after_read P ADC_SQR1 (p_write P ADC_SQR1 (a AND NOT (push_bit 6 0x1F)) (after_read P ADC_SQR1 (hw s)))),
        (Read ADC_ISR (obs P ADC_ISR h5), h5),
        (Write ADC_ISR (obs P ADC_ISR h5 OR ADC_ISR_EOC), after_read P ADC_ISR h5),
        (Read ADC_CR (obs P ADC_CR (p_write P ADC_ISR (obs P ADC_ISR h5 OR ADC_ISR_EOC) (after_read P ADC_ISR h5))),
           p_write P ADC_ISR (obs P ADC_ISR h5 OR ADC_ISR_EOC) (after_read P ADC_ISR h5)),
        (Write ADC_CR
           (obs P ADC_CR (p_write P ADC_ISR (obs P ADC_ISR h5 OR ADC_ISR_EOC) (after_read P ADC_ISR h5))
              OR ADC_CR_ADSTART),
           after_read P ADC_CR (p_write P ADC_ISR (obs P ADC_ISR h5 OR ADC_ISR_EOC) (after_read P ADC_ISR h5)))]"
    by blast
  then show ?thesis
    by (intro exI [where x = h5] exI [where x = "[(Read ADC_SQR1 a, hw s),
        (Write ADC_SQR1 (a AND NOT (push_bit 6 0x1F)), after_read P ADC_SQR1 (hw s)),
        (Read ADC_SQR1 b, p_write P ADC_SQR1 (a AND NOT (push_bit 6 0x1F)) (after_read P ADC_SQR1 (hw s))),
        (Write ADC_SQR1 (b OR push_bit 6 (ucast ch)),
           after_read P ADC_SQR1 (p_write P ADC_SQR1 (a AND NOT (push_bit 6 0x1F)) (after_read P ADC_SQR1 (hw s))))]"])
       simp
qed

text \<open>The whole of one call: the probe goes high, the sequence register is rewritten, the
  status flags are acknowledged, the start bit is set, the flag is polled, and on return the
  probe goes low and the data register is read.\<close>

lemma adc_read_trace:
  "\<exists>pre h5 polls fin.
     trace (state_of (adc_read n P ch s)) = trace s @ (DigitalWrite PIN_SAMPLE True, hw s) # pre @
       [(Read ADC_ISR (obs P ADC_ISR h5), h5),
        (Write ADC_ISR (obs P ADC_ISR h5 OR ADC_ISR_EOC), after_read P ADC_ISR h5),
        (Read ADC_CR (obs P ADC_CR (p_write P ADC_ISR (obs P ADC_ISR h5 OR ADC_ISR_EOC) (after_read P ADC_ISR h5))),
           p_write P ADC_ISR (obs P ADC_ISR h5 OR ADC_ISR_EOC) (after_read P ADC_ISR h5)),
        (Write ADC_CR
           (obs P ADC_CR (p_write P ADC_ISR (obs P ADC_ISR h5 OR ADC_ISR_EOC) (after_read P ADC_ISR h5))
              OR ADC_CR_ADSTART),
           after_read P ADC_CR (p_write P ADC_ISR (obs P ADC_ISR h5 OR ADC_ISR_EOC) (after_read P ADC_ISR h5)))]
       @ polls @ fin
     \<and> list_all (\<lambda>x. is_read ADC_SQR1 (fst x) \<or> is_write ADC_SQR1 (fst x)) pre
     \<and> list_all (\<lambda>x. is_read ADC_ISR (fst x)) polls
     \<and> (case returned (adc_read n P ch s) of
           None \<Rightarrow> fin = []
         | Some v \<Rightarrow> polls \<noteq> [] \<and> reads_set ADC_ISR ADC_ISR_EOC (fst (last polls))
             \<and> (\<exists>h9. fin = [(DigitalWrite PIN_SAMPLE False, h9), (Read ADC_DR (obs P ADC_DR h9), h9)]
                     \<and> v = ucast (obs P ADC_DR h9)))"
proof -
  from adc_read_start_since [of P ch s] obtain pre h5 where
    st: "trace (adc_read_start P ch s) = trace s @ (DigitalWrite PIN_SAMPLE True, hw s) # pre @
       [(Read ADC_ISR (obs P ADC_ISR h5), h5),
        (Write ADC_ISR (obs P ADC_ISR h5 OR ADC_ISR_EOC), after_read P ADC_ISR h5),
        (Read ADC_CR (obs P ADC_CR (p_write P ADC_ISR (obs P ADC_ISR h5 OR ADC_ISR_EOC) (after_read P ADC_ISR h5))),
           p_write P ADC_ISR (obs P ADC_ISR h5 OR ADC_ISR_EOC) (after_read P ADC_ISR h5)),
        (Write ADC_CR
           (obs P ADC_CR (p_write P ADC_ISR (obs P ADC_ISR h5 OR ADC_ISR_EOC) (after_read P ADC_ISR h5))
              OR ADC_CR_ADSTART),
           after_read P ADC_CR (p_write P ADC_ISR (obs P ADC_ISR h5 OR ADC_ISR_EOC) (after_read P ADC_ISR h5)))]"
    and pre: "list_all (\<lambda>x. is_read ADC_SQR1 (fst x) \<or> is_write ADC_SQR1 (fst x)) pre"
    by blast
  show ?thesis
  proof (cases "returned (adc_read n P ch s)")
    case None
    from adc_read_spin [OF None] obtain polls where
      "trace (state_of (adc_read n P ch s)) = trace (adc_read_start P ch s) @ polls"
      "list_all (\<lambda>x. is_read ADC_ISR (fst x)) polls"
      by blast
    with st pre None show ?thesis
      by (intro exI [where x = pre] exI [where x = h5] exI [where x = polls] exI [where x = "[]"])
         simp
  next
    case (Some v)
    from adc_read_tail [OF Some] obtain polls h h9 where
      "trace (state_of (adc_read n P ch s)) =
        trace (adc_read_start P ch s) @ polls @
          [(Read ADC_ISR (obs P ADC_ISR h), h),
           (DigitalWrite PIN_SAMPLE False, h9), (Read ADC_DR (obs P ADC_DR h9), h9)]"
      "list_all (\<lambda>x. is_read ADC_ISR (fst x)) polls"
      "obs P ADC_ISR h AND ADC_ISR_EOC \<noteq> 0"
      "v = ucast (obs P ADC_DR h9)"
      by blast
    with st pre Some show ?thesis
      by (intro exI [where x = pre] exI [where x = h5]
            exI [where x = "polls @ [(Read ADC_ISR (obs P ADC_ISR h), h)]"]
            exI [where x = "[(DigitalWrite PIN_SAMPLE False, h9), (Read ADC_DR (obs P ADC_DR h9), h9)]"])
         simp
  qed
qed

lemma kinds:
  "is_read r e \<Longrightarrow> \<not> is_write r' e"
  "is_write r e \<Longrightarrow> \<not> is_read r' e"
  "is_read r e \<Longrightarrow> is_access e"
  "is_write r e \<Longrightarrow> is_access e"
  "is_read r e \<Longrightarrow> r' \<noteq> r \<Longrightarrow> \<not> is_read r' e"
  "is_write r e \<Longrightarrow> r' \<noteq> r \<Longrightarrow> \<not> is_write r' e"
  "reads_set r m e \<Longrightarrow> is_read r e"
  "writes_set r m e \<Longrightarrow> is_write r e"
  by (cases e; simp)+

lemma list_all_imp: "list_all Q xs \<Longrightarrow> (\<And>x. Q x \<Longrightarrow> R x) \<Longrightarrow> list_all R xs"
  by (induction xs) auto

lemma w1c_mock: "w1c mock ADC_ISR"
  by (simp add: w1c_def mock_write_def mock_value_def)

lemma mock_demo:
  fixes ain :: "u32 \<Rightarrow> u32"
  defines "s0 \<equiv> state_of (adc_init 5 mock (boot (mock_reset 2 ain)))"
  shows "returned (adc_init 5 mock (boot (mock_reset 2 ain))) = Some ()"
    and "mock_ready (hw s0)" and "latency (hw s0) + 1 < 5" and "analog (hw s0) = ain"
    and "isr (hw s0) = ADC_ISR_ADRDY" and "serial s0 = []"
proof -
  let ?b = "boot (mock_reset 2 ain)"
  have off: "mock_off (hw ?b)" "latency (hw ?b) + 1 < 5"
    by (simp_all add: boot_def) (simp add: mock_reset_def)
  show "returned (adc_init 5 mock ?b) = Some ()" by (rule mock_adc_init(1) [OF off])
  note rdy = mock_ready_after_init [OF off]
  show "mock_ready (hw s0)" unfolding s0_def by (rule rdy(1))
  show "latency (hw s0) + 1 < 5" unfolding s0_def using rdy(2) off(2) by simp
  show "analog (hw s0) = ain" unfolding s0_def using rdy(3) by (simp add: boot_def mock_reset_def)
  show "isr (hw s0) = ADC_ISR_ADRDY"
    unfolding s0_def mock_adc_init(2) [OF off] by (simp add: boot_def mock_reset_def)
  show "serial s0 = []" unfolding s0_def by (simp add: boot_def)
qed

lemma probe_levels_append: "probe_levels (xs @ ys) = probe_levels xs @ probe_levels ys"
  by (induction xs rule: probe_levels.induct) simp_all

lemma probe_levels_access: "list_all is_access xs \<Longrightarrow> probe_levels xs = []"
  by (induction xs rule: probe_levels.induct) simp_all

lemma list_all_map_fst: "list_all (\<lambda>x. Q (fst x)) xs = list_all Q (map fst xs)"
  by (induction xs) simp_all

lemma adc_read_events:
  "\<exists>t mid fin. trace (state_of (adc_read n P ch s)) = trace s @ t
     \<and> map fst t = DigitalWrite PIN_SAMPLE True # mid @ fin
     \<and> list_all is_access mid \<and> list_all (\<lambda>e. \<not> is_read ADC_DR e) mid
     \<and> (case returned (adc_read n P ch s) of
           None \<Rightarrow> fin = []
         | Some v \<Rightarrow> mid \<noteq> [] \<and> reads_set ADC_ISR ADC_ISR_EOC (last mid)
             \<and> (\<exists>d. fin = [DigitalWrite PIN_SAMPLE False, Read ADC_DR d]))"
proof -
  from adc_read_trace [of n P ch s] obtain pre h5 polls fin where
    tr: "trace (state_of (adc_read n P ch s)) = trace s @ (DigitalWrite PIN_SAMPLE True, hw s) # pre @
       [(Read ADC_ISR (obs P ADC_ISR h5), h5),
        (Write ADC_ISR (obs P ADC_ISR h5 OR ADC_ISR_EOC), after_read P ADC_ISR h5),
        (Read ADC_CR (obs P ADC_CR (p_write P ADC_ISR (obs P ADC_ISR h5 OR ADC_ISR_EOC) (after_read P ADC_ISR h5))),
           p_write P ADC_ISR (obs P ADC_ISR h5 OR ADC_ISR_EOC) (after_read P ADC_ISR h5)),
        (Write ADC_CR
           (obs P ADC_CR (p_write P ADC_ISR (obs P ADC_ISR h5 OR ADC_ISR_EOC) (after_read P ADC_ISR h5))
              OR ADC_CR_ADSTART),
           after_read P ADC_CR (p_write P ADC_ISR (obs P ADC_ISR h5 OR ADC_ISR_EOC) (after_read P ADC_ISR h5)))]
       @ polls @ fin"
    and pre: "list_all (\<lambda>x. is_read ADC_SQR1 (fst x) \<or> is_write ADC_SQR1 (fst x)) pre"
    and polls: "list_all (\<lambda>x. is_read ADC_ISR (fst x)) polls"
    and fin: "case returned (adc_read n P ch s) of
           None \<Rightarrow> fin = []
         | Some v \<Rightarrow> polls \<noteq> [] \<and> reads_set ADC_ISR ADC_ISR_EOC (fst (last polls))
             \<and> (\<exists>h9. fin = [(DigitalWrite PIN_SAMPLE False, h9), (Read ADC_DR (obs P ADC_DR h9), h9)]
                     \<and> v = ucast (obs P ADC_DR h9))"
    by (elim exE conjE)
  let ?Q = "\<lambda>x :: event \<times> 'a. is_access (fst x) \<and> \<not> is_read ADC_DR (fst x)"
  have 1: "list_all ?Q pre"
    by (rule list_all_imp [OF pre]) (auto dest: kinds)
  have 2: "list_all ?Q polls"
    by (rule list_all_imp [OF polls]) (auto dest: kinds)
  let ?mid = "map fst (pre @
       [(Read ADC_ISR (obs P ADC_ISR h5), h5),
        (Write ADC_ISR (obs P ADC_ISR h5 OR ADC_ISR_EOC), after_read P ADC_ISR h5),
        (Read ADC_CR (obs P ADC_CR (p_write P ADC_ISR (obs P ADC_ISR h5 OR ADC_ISR_EOC) (after_read P ADC_ISR h5))),
           p_write P ADC_ISR (obs P ADC_ISR h5 OR ADC_ISR_EOC) (after_read P ADC_ISR h5)),
        (Write ADC_CR
           (obs P ADC_CR (p_write P ADC_ISR (obs P ADC_ISR h5 OR ADC_ISR_EOC) (after_read P ADC_ISR h5))
              OR ADC_CR_ADSTART),
           after_read P ADC_CR (p_write P ADC_ISR (obs P ADC_ISR h5 OR ADC_ISR_EOC) (after_read P ADC_ISR h5)))]
       @ polls)"
  have 3: "list_all is_access ?mid" "list_all (\<lambda>e. \<not> is_read ADC_DR e) ?mid"
    using 1 2 by (auto simp: list_all_iff)
  have 4: "case returned (adc_read n P ch s) of
           None \<Rightarrow> map fst fin = []
         | Some v \<Rightarrow> ?mid \<noteq> [] \<and> reads_set ADC_ISR ADC_ISR_EOC (last ?mid)
             \<and> (\<exists>d. map fst fin = [DigitalWrite PIN_SAMPLE False, Read ADC_DR d])"
    using fin by (cases "returned (adc_read n P ch s)") (auto simp: last_map)
  show ?thesis
    apply (rule exI [where x = "(DigitalWrite PIN_SAMPLE True, hw s) # pre @
       [(Read ADC_ISR (obs P ADC_ISR h5), h5),
        (Write ADC_ISR (obs P ADC_ISR h5 OR ADC_ISR_EOC), after_read P ADC_ISR h5),
        (Read ADC_CR (obs P ADC_CR (p_write P ADC_ISR (obs P ADC_ISR h5 OR ADC_ISR_EOC) (after_read P ADC_ISR h5))),
           p_write P ADC_ISR (obs P ADC_ISR h5 OR ADC_ISR_EOC) (after_read P ADC_ISR h5)),
        (Write ADC_CR
           (obs P ADC_CR (p_write P ADC_ISR (obs P ADC_ISR h5 OR ADC_ISR_EOC) (after_read P ADC_ISR h5))
              OR ADC_CR_ADSTART),
           after_read P ADC_CR (p_write P ADC_ISR (obs P ADC_ISR h5 OR ADC_ISR_EOC) (after_read P ADC_ISR h5)))]
       @ polls @ fin"])
    apply (rule exI [where x = ?mid])
    apply (rule exI [where x = "map fst fin"])
    using 3 4 tr apply simp
    done
qed

lemma adc_reads_Cons_Some:
  assumes "returned (adc_reads n P (ch # chs) s) = Some vs"
  obtains v vs' where "vs = v # vs'" "returned (adc_read n P ch s) = Some v"
    "returned (adc_reads n P chs (state_of (adc_read n P ch s))) = Some vs'"
    "state_of (adc_reads n P (ch # chs) s) = state_of (adc_reads n P chs (state_of (adc_read n P ch s)))"
proof (cases "adc_read n P ch s")
  case (Spin s1)
  with assms show ?thesis by simp
next
  case r1: (Ret v s1)
  show ?thesis
  proof (cases "adc_reads n P chs s1")
    case (Spin s2)
    with assms r1 show ?thesis by simp
  next
    case (Ret vs' s2)
    with assms r1 that [of v vs'] show ?thesis by simp
  qed
qed

lemma adc_reads_probe:
  assumes "returned (adc_reads n P chs s) = Some vs"
  shows "\<exists>t. trace (state_of (adc_reads n P chs s)) = trace s @ t
           \<and> probe_levels (map fst t) = concat (map (\<lambda>_. [True, False]) chs)
           \<and> (chs \<noteq> [] \<longrightarrow> \<not> levels (state_of (adc_reads n P chs s)) PIN_SAMPLE)"
  using assms
proof (induction chs arbitrary: s vs)
  case Nil
  then show ?case by simp
next
  case (Cons ch chs)
  from Cons.prems obtain v vs' where
    v: "returned (adc_read n P ch s) = Some v"
    and r: "returned (adc_reads n P chs (state_of (adc_read n P ch s))) = Some vs'"
    and st: "state_of (adc_reads n P (ch # chs) s) = state_of (adc_reads n P chs (state_of (adc_read n P ch s)))"
    by (rule adc_reads_Cons_Some)
  let ?s1 = "state_of (adc_read n P ch s)"
  from adc_read_events [of n P ch s] v obtain t1 mid d where
    t1: "trace ?s1 = trace s @ t1"
        "map fst t1 = DigitalWrite PIN_SAMPLE True # mid @ [DigitalWrite PIN_SAMPLE False, Read ADC_DR d]"
        "list_all is_access mid"
    by auto
  have p1: "probe_levels (map fst t1) = [True, False]"
    by (simp add: t1(2) probe_levels_append probe_levels_access [OF t1(3)])
  from Cons.IH [OF r] obtain t2 where
    t2: "trace (state_of (adc_reads n P chs ?s1)) = trace ?s1 @ t2"
        "probe_levels (map fst t2) = concat (map (\<lambda>_. [True, False]) chs)"
        "chs \<noteq> [] \<longrightarrow> \<not> levels (state_of (adc_reads n P chs ?s1)) PIN_SAMPLE"
    by blast
  have l: "\<not> levels (state_of (adc_reads n P chs ?s1)) PIN_SAMPLE"
  proof (cases chs)
    case Nil
    then show ?thesis using adc_read_levels_ret [OF v] by simp
  next
    case (Cons a list)
    then show ?thesis using t2(3) by simp
  qed
  show ?case
    unfolding st using t1(1) t2(1) p1 t2(2) l
    by (intro exI [where x = "t1 @ t2"]) (simp add: probe_levels_append)
qed

lemma mock_adc_read_keeps:
  assumes "mock_ready (hw s)" and "latency (hw s) + 1 < fuel"
  shows "mock_ready (hw (state_of (adc_read fuel mock ch s)))"
    and "latency (hw (state_of (adc_read fuel mock ch s))) = latency (hw s)"
    and "analog (hw (state_of (adc_read fuel mock ch s))) = analog (hw s)"
  using assms(1) by (simp_all add: mock_adc_read(2) [OF assms] mock_ready_def)

lemma mock_adc_read_last:
  assumes "mock_ready (hw s)" and "latency (hw s) + 1 < fuel"
  shows "fst (last (trace (state_of (adc_read fuel mock ch s)))) =
           Read ADC_DR (analog (hw s) (ucast ch AND 0x1F) AND 0xFFF)"
proof -
  let ?s1 = "adc_read_start mock ch s"
  note h1 = mock_adc_read_start [OF assms(1), of ch]
  have "job (hw ?s1) = Converting (latency (hw s))" "isr (hw ?s1) AND ADC_ISR_EOC = 0"
    by (simp_all add: h1)
  from mock_wait_converting [OF this(1) assms(2) this(2)]
  have w: "returned (wait_while_clear fuel mock ADC_ISR ADC_ISR_EOC ?s1) = Some ()"
    and hw2: "dr (hw (state_of (wait_while_clear fuel mock ADC_ISR ADC_ISR_EOC ?s1))) =
        analog (hw s) (ucast ch AND 0x1F) AND 0xFFF"
    using sq1_field [of "sqr1 (hw s)" ch] by (simp_all add: h1)
  show ?thesis
  proof (cases fuel mock ch s rule: adc_read_cases)
    case (spin s1)
    with w show ?thesis by simp
  next
    case (ret s1)
    with hw2 show ?thesis by (simp add: trace_prims mock_value_def)
  qed
qed

lemma mock_adc_reads:
  assumes "mock_ready (hw s)" and "latency (hw s) + 1 < fuel"
  shows "returned (adc_reads fuel mock chs s) =
           Some (map (\<lambda>ch. ucast (analog (hw s) (ucast ch AND 0x1F) AND 0xFFF)) chs)"
  using assms
proof (induction chs arbitrary: s)
  case Nil
  then show ?case by simp
next
  case (Cons ch chs)
  let ?v = "ucast (analog (hw s) (ucast ch AND 0x1F) AND 0xFFF) :: u16"
  let ?s1 = "state_of (adc_read fuel mock ch s)"
  have r: "adc_read fuel mock ch s = Ret ?v ?s1"
    using mock_adc_read(1) [OF Cons.prems, of ch] by (simp add: returned_Some_iff)
  note k = mock_adc_read_keeps [OF Cons.prems, of ch]
  have "latency (hw ?s1) + 1 < fuel" using k(2) Cons.prems(2) by simp
  from Cons.IH [OF k(1) this] show ?case
    by (subst adc_reads.simps, subst r)
       (cases "adc_reads fuel mock chs ?s1"; simp add: k(3))
qed

lemma boot_fields [simp]:
  "hw (boot h) = h" "serial (boot h) = []" "trace (boot h) = []"
  "levels (boot h) = (\<lambda>_. False)" "modes (boot h) = (\<lambda>_. INPUT)"
  by (simp_all add: boot_def)

lemma mock_main_setup:
  "job (hw s) = Idle \<Longrightarrow> hw (main_setup mock s) =
     (hw s)\<lparr>ahb2enr := ahb2enr (hw s) OR RCC_AHB2ENR_GPIOAEN,
       moder := moder (hw s) OR push_bit (ADC_PIN * 2) 3, ascr := ascr (hw s) OR push_bit ADC_PIN 1\<rparr>"
  by (simp add: main_setup_def Let_def arduino_init_def serial_begin_def mock_write_def mock_value_def)

lemma main_setup_serial [simp]: "serial (main_setup P s) = serial s"
  by (simp add: main_setup_def Let_def arduino_init_def serial_begin_def log_event_def)

lemma main_pins_fields [simp]:
  "serial (main_pins s) = serial s" "hw (main_pins s) = hw s"
  by (simp_all add: main_pins_def Let_def)

lemma mock_main_loop:
  assumes "mock_ready (hw s)" and "latency (hw s) + 1 < fuel"
  shows "serial (state_of (main_loop k fuel mock s)) =
     serial s @ concat (replicate k [0xAA, 0xAA,
        ucast (analog (hw s) 5 AND 0xFF), ucast (drop_bit 8 (analog (hw s) 5 AND 0xFFF))])"
  using assms
proof (induction k arbitrary: s)
  case 0
  then show ?case by simp
next
  case (Suc k)
  note m = mock_main_iteration [OF Suc.prems]
  let ?s1 = "state_of (main_iteration fuel mock s)"
  have r: "main_iteration fuel mock s = Ret () ?s1"
    using m(1) by (rule returned_unit)
  have "mock_ready (hw ?s1)" "latency (hw ?s1) + 1 < fuel" "analog (hw ?s1) = analog (hw s)"
    using Suc.prems by (simp_all add: m(3) mock_ready_def)
  from Suc.IH [OF this(1,2)] this(3) show ?case
    by (subst main_loop.simps, subst r) (simp add: m(2))
qed

lemma storageD:
  assumes "storage P r"
  shows "obs P r (p_write P r v h) = v"
    and "r' \<noteq> r \<Longrightarrow> obs P r (p_write P r' v h) = obs P r h"
    and "obs P r (after_read P r' h) = obs P r h"
  using assms by (simp_all add: storage_def)

lemma storage_wait:
  assumes "storage P r"
  shows "obs P r (hw (state_of (wait_while_set n P r' m s))) = obs P r (hw s)"
    and "obs P r (hw (state_of (wait_while_clear n P r' m s))) = obs P r (hw s)"
  by (rule wait_while_set_inv wait_while_clear_inv, simp, simp add: storageD [OF assms])+

lemma adc_read_sqr1:
  assumes "storage P ADC_SQR1"
  shows "obs P ADC_SQR1 (hw (state_of (adc_read n P ch s))) =
           (obs P ADC_SQR1 (hw s) AND NOT (push_bit 6 0x1F)) OR push_bit 6 (ucast ch)"
proof -
  note st = storageD [OF assms] storage_wait [OF assms]
  have a: "obs P ADC_SQR1 (hw (adc_read_start P ch s)) =
           (obs P ADC_SQR1 (hw s) AND NOT (push_bit 6 0x1F)) OR push_bit 6 (ucast ch)"
    unfolding adc_read_start_def by (simp add: st)
  show ?thesis
  proof (cases n P ch s rule: adc_read_cases)
    case (spin s1)
    then show ?thesis
      using st(5) [of n ADC_ISR ADC_ISR_EOC "adc_read_start P ch s"] a by simp
  next
    case (ret s1)
    then show ?thesis
      using st(5) [of n ADC_ISR ADC_ISR_EOC "adc_read_start P ch s"] a
      by (simp add: st)
  qed
qed

lemma adc_init_ret:
  assumes "returned (adc_init n P s) = Some ()"
  obtains s2 where
    "state_of (adc_init n P s) =
       state_of (wait_while_clear n P ADC_ISR ADC_ISR_ADRDY (adc_init_configure P s2))"
    "returned (wait_while_clear n P ADC_ISR ADC_ISR_ADRDY (adc_init_configure P s2)) = Some ()"
proof (cases "adc_init_disable n P (adc_init_clocks P s)")
  case (Spin s1)
  with assms show ?thesis by (simp add: adc_init_unfold)
next
  case r1: (Ret u s1)
  show ?thesis
  proof (cases "wait_while_set n P ADC_CR ADC_CR_ADCAL (adc_init_calibrate P s1)")
    case (Spin s2)
    with assms r1 show ?thesis by (simp add: adc_init_unfold)
  next
    case (Ret u' s2)
    with assms r1 that [of s2] show ?thesis by (simp add: adc_init_unfold)
  qed
qed

lemma adc_init_configured:
  assumes "returned (adc_init n P s) = Some ()"
  shows "storage P ADC_CFGR \<Longrightarrow>
           \<exists>x. obs P ADC_CFGR (hw (state_of (adc_init n P s))) = (x AND NOT ADC_CFGR_CONT) AND NOT ADC_CFGR_RES"
    and "storage P ADC_SMPR1 \<Longrightarrow>
           \<exists>x. obs P ADC_SMPR1 (hw (state_of (adc_init n P s))) =
             (x AND NOT (push_bit (unat ADC_CHANNEL * 3) 7)) OR push_bit (unat ADC_CHANNEL * 3) SAMP_TIME"
    and "storage P ADC_SQR1 \<Longrightarrow>
           \<exists>x. obs P ADC_SQR1 (hw (state_of (adc_init n P s))) = x AND NOT ADC_SQR1_L"
proof -
  from assms obtain s2 where
    e: "state_of (adc_init n P s) =
       state_of (wait_while_clear n P ADC_ISR ADC_ISR_ADRDY (adc_init_configure P s2))"
    by (rule adc_init_ret)
  show "\<exists>x. obs P ADC_CFGR (hw (state_of (adc_init n P s))) = (x AND NOT ADC_CFGR_CONT) AND NOT ADC_CFGR_RES"
    if "storage P ADC_CFGR"
    unfolding e storage_wait [OF that] adc_init_configure_def
    by (rule exI [where x = "obs P ADC_CFGR (hw s2)"]) (simp add: storageD [OF that])
  show "\<exists>x. obs P ADC_SMPR1 (hw (state_of (adc_init n P s))) =
             (x AND NOT (push_bit (unat ADC_CHANNEL * 3) 7)) OR push_bit (unat ADC_CHANNEL * 3) SAMP_TIME"
    if "storage P ADC_SMPR1"
    unfolding e storage_wait [OF that] adc_init_configure_def
    by (rule exI [where x = "obs P ADC_SMPR1 (hw s2)"]) (simp add: storageD [OF that])
  show "\<exists>x. obs P ADC_SQR1 (hw (state_of (adc_init n P s))) = x AND NOT ADC_SQR1_L"
    if "storage P ADC_SQR1"
    unfolding e storage_wait [OF that] adc_init_configure_def
    by (rule exI [where x = "obs P ADC_SQR1 (hw s2)"]) (simp add: storageD [OF that])
qed

lemma storage_mock:
  "storage mock ADC_CFGR" "storage mock ADC_SMPR1" "storage mock ADC_SQR1"
  by (auto simp: storage_def mock_write_def mock_value_def mock_write_cr_def mock_tick_def Let_def
      split: reg.split job.split nat.split)

lemma mask_7: "(7 :: 'a::len word) = mask 3"
  by (simp add: mask_eq_exp_minus_1)

lemma smp_field:
  "drop_bit (unat ADC_CHANNEL * 3)
     ((x AND NOT (push_bit (unat ADC_CHANNEL * 3) 7)) OR push_bit (unat ADC_CHANNEL * 3) SAMP_TIME)
     AND 7 = SAMP_TIME"
proof -
  have a: "unat ADC_CHANNEL * 3 = 15" "push_bit 15 SAMP_TIME = 0"
    by (simp_all add: ADC_CHANNEL_def SAMP_TIME_def)
  have "drop_bit 15 (x AND NOT (push_bit 15 (mask 3))) AND mask 3 = (0 :: u32)"
    by (rule bit_word_eqI) (auto simp: bit_simps)
  then show ?thesis
    unfolding a mask_7 by (simp add: SAMP_TIME_def)
qed

lemma sqr1_length_kept:
  "((x AND NOT (push_bit 6 0x1F)) OR push_bit 6 (ucast (ch :: u8))) AND ADC_SQR1_L = x AND ADC_SQR1_L"
proof -
  have a: "ADC_SQR1_L = mask 4"
    by (simp add: ADC_SQR1_L_def mask_eq_exp_minus_1)
  show ?thesis
    unfolding a mask_31 by (rule bit_word_eqI) (auto simp: bit_simps)
qed

lemma adc_reads_sqr1:
  assumes "storage P ADC_SQR1" and "returned (adc_reads n P chs s) = Some vs"
  shows "obs P ADC_SQR1 (hw (state_of (adc_reads n P chs s))) AND ADC_SQR1_L
           = obs P ADC_SQR1 (hw s) AND ADC_SQR1_L
       \<and> (chs \<noteq> [] \<longrightarrow>
            drop_bit 6 (obs P ADC_SQR1 (hw (state_of (adc_reads n P chs s)))) AND 0x1F
              = ucast (last chs) AND 0x1F)"
  using assms(2)
proof (induction chs arbitrary: s vs)
  case Nil
  then show ?case by simp
next
  case (Cons ch chs)
  from Cons.prems obtain v vs' where
    r: "returned (adc_reads n P chs (state_of (adc_read n P ch s))) = Some vs'"
    and st: "state_of (adc_reads n P (ch # chs) s) = state_of (adc_reads n P chs (state_of (adc_read n P ch s)))"
    by (rule adc_reads_Cons_Some)
  note one = adc_read_sqr1 [OF assms(1), of n ch s]
  show ?case
  proof (cases chs)
    case Nil
    then show ?thesis
      unfolding st using one sqr1_length_kept [of "obs P ADC_SQR1 (hw s)" ch]
        sq1_field [of "obs P ADC_SQR1 (hw s)" ch]
      by simp
  next
    case (Cons a list)
    with Cons.IH [OF r] show ?thesis
      unfolding st using one sqr1_length_kept [of "obs P ADC_SQR1 (hw s)" ch]
      by simp
  qed
qed

lemma start_sees_no_flag_other [simp]:
  "\<not> is_write ADC_CR e \<Longrightarrow> start_sees_no_flag P (e, h)"
  by (auto simp: start_sees_no_flag_def dest: kinds)

lemma start_sees_no_flag_mock: "isr h = 0 \<Longrightarrow> start_sees_no_flag mock (e, h)"
  by (simp add: start_sees_no_flag_def mock_value_def)

lemma adc_read_start_list_all:
  assumes "\<And>e h. \<not> is_write ADC_CR e \<Longrightarrow> Q (e, h)"
    and "Q (Write ADC_CR
             (obs P ADC_CR (hw (set_bits P ADC_ISR ADC_ISR_EOC
                (set_bits P ADC_SQR1 (push_bit 6 (ucast ch))
                  (clear_bits P ADC_SQR1 (push_bit 6 0x1F) (digitalWrite PIN_SAMPLE True s)))))
              OR ADC_CR_ADSTART),
           after_read P ADC_CR (hw (set_bits P ADC_ISR ADC_ISR_EOC
                (set_bits P ADC_SQR1 (push_bit 6 (ucast ch))
                  (clear_bits P ADC_SQR1 (push_bit 6 0x1F) (digitalWrite PIN_SAMPLE True s))))))"
  shows "\<exists>t. trace (adc_read_start P ch s) = trace s @ t \<and> list_all Q t"
proof -
  define s4 where "s4 = set_bits P ADC_ISR ADC_ISR_EOC
                (set_bits P ADC_SQR1 (push_bit 6 (ucast ch))
                  (clear_bits P ADC_SQR1 (push_bit 6 0x1F) (digitalWrite PIN_SAMPLE True s)))"
  have "\<exists>t. trace s4 = trace s @ t \<and> list_all Q t"
    unfolding s4_def by (simp add: trace_prims assms(1))
  then obtain t where t: "trace s4 = trace s @ t" "list_all Q t"
    by blast
  have "adc_read_start P ch s = set_bits P ADC_CR ADC_CR_ADSTART s4"
    by (simp add: adc_read_start_def s4_def)
  then have "trace (adc_read_start P ch s) = trace s @ t @
      [(Read ADC_CR (obs P ADC_CR (hw s4)), hw s4),
       (Write ADC_CR (obs P ADC_CR (hw s4) OR ADC_CR_ADSTART), after_read P ADC_CR (hw s4))]"
    using t(1) by (simp add: trace_prims)
  moreover have "list_all Q (t @
      [(Read ADC_CR (obs P ADC_CR (hw s4)), hw s4),
       (Write ADC_CR (obs P ADC_CR (hw s4) OR ADC_CR_ADSTART), after_read P ADC_CR (hw s4))])"
    using t(2) assms(2) unfolding s4_def [symmetric] by (simp add: assms(1))
  ultimately show ?thesis by blast
qed

lemma adc_read_list_all:
  assumes "\<And>e h. \<not> is_write ADC_CR e \<Longrightarrow> Q (e, h)"
    and "Q (Write ADC_CR
             (obs P ADC_CR (hw (set_bits P ADC_ISR ADC_ISR_EOC
                (set_bits P ADC_SQR1 (push_bit 6 (ucast ch))
                  (clear_bits P ADC_SQR1 (push_bit 6 0x1F) (digitalWrite PIN_SAMPLE True s)))))
              OR ADC_CR_ADSTART),
           after_read P ADC_CR (hw (set_bits P ADC_ISR ADC_ISR_EOC
                (set_bits P ADC_SQR1 (push_bit 6 (ucast ch))
                  (clear_bits P ADC_SQR1 (push_bit 6 0x1F) (digitalWrite PIN_SAMPLE True s))))))"
  shows "list_all Q (since s (state_of (adc_read n P ch s)))"
proof -
  from adc_read_start_list_all [of Q P ch s, OF assms] obtain t where
    t: "trace (adc_read_start P ch s) = trace s @ t" "list_all Q t"
    by blast
  have r: "list_all Q u" if "list_all (\<lambda>x. is_read ADC_ISR (fst x)) u" for u :: "(event \<times> 'a) list"
    by (rule list_all_imp [OF that]) (auto intro!: assms(1) dest: kinds)
  show ?thesis
  proof (cases "returned (adc_read n P ch s)")
    case None
    from adc_read_spin [OF None] obtain polls where
      "trace (state_of (adc_read n P ch s)) = trace (adc_read_start P ch s) @ polls"
      "list_all (\<lambda>x. is_read ADC_ISR (fst x)) polls"
      by blast
    with t r [of polls] show ?thesis
      by (simp add: since_def)
  next
    case (Some v)
    from adc_read_tail [OF Some] obtain polls h h9 where
      "trace (state_of (adc_read n P ch s)) =
        trace (adc_read_start P ch s) @ polls @
          [(Read ADC_ISR (obs P ADC_ISR h), h),
           (DigitalWrite PIN_SAMPLE False, h9), (Read ADC_DR (obs P ADC_DR h9), h9)]"
      "list_all (\<lambda>x. is_read ADC_ISR (fst x)) polls"
      by blast
    with t r [of polls] show ?thesis
      by (simp add: since_def assms(1))
  qed
qed

lemma mock_start_state:
  assumes "mock_ready (hw s)"
  shows "isr (after_read mock ADC_CR (hw (set_bits mock ADC_ISR ADC_ISR_EOC
                (set_bits mock ADC_SQR1 (push_bit 6 (ucast ch))
                  (clear_bits mock ADC_SQR1 (push_bit 6 0x1F) (digitalWrite PIN_SAMPLE True s)))))) = 0"
  using assms
  by (simp add: mock_ready_def mock_write_def mock_value_def and_not_self_or)

lemma mock_start_sees_no_flag:
  assumes "mock_ready (hw s)"
  shows "list_all (start_sees_no_flag mock) (since s (state_of (adc_read n mock ch s)))"
  by (rule adc_read_list_all)
     (simp, rule start_sees_no_flag_mock, rule mock_start_state [OF assms])

lemma wait_while_clear_spin:
  "returned (wait_while_clear n P r m s) = None \<Longrightarrow>
     \<exists>t. trace (state_of (wait_while_clear n P r m s)) = trace s @ t \<and> length t = n
       \<and> list_all (\<lambda>x. is_read r (fst x) \<and> \<not> reads_set r m (fst x)) t"
proof (induction n arbitrary: s)
  case 0
  then show ?case by simp
next
  case (Suc n)
  show ?case
  proof (cases "obs P r (hw s) AND m = 0")
    case True
    with Suc.prems have "returned (wait_while_clear n P r m (snd (read_reg P r s))) = None"
      by (simp add: wait_while_clear_Suc)
    from Suc.IH [OF this] obtain t where
      "trace (state_of (wait_while_clear n P r m (snd (read_reg P r s)))) = trace (snd (read_reg P r s)) @ t"
      "length t = n" "list_all (\<lambda>x. is_read r (fst x) \<and> \<not> reads_set r m (fst x)) t"
      by blast
    with True show ?thesis
      by (intro exI [where x = "(Read r (obs P r (hw s)), hw s) # t"])
         (simp add: wait_while_clear_Suc trace_prims)
  next
    case False
    with Suc.prems show ?thesis by (simp add: wait_while_clear_Suc)
  qed
qed

lemma adc_read_gives_up:
  assumes "returned (adc_read n P ch s) = None"
  shows "\<exists>polls. trace (state_of (adc_read n P ch s)) = trace (adc_read_start P ch s) @ polls
      \<and> length polls = n
      \<and> list_all (\<lambda>x. is_read ADC_ISR (fst x) \<and> \<not> reads_set ADC_ISR ADC_ISR_EOC (fst x)) polls"
proof (cases n P ch s rule: adc_read_cases)
  case (spin s1)
  then have "returned (wait_while_clear n P ADC_ISR ADC_ISR_EOC (adc_read_start P ch s)) = None"
    by simp
  from wait_while_clear_spin [OF this] spin show ?thesis by simp
next
  case (ret s1)
  with assms show ?thesis by simp
qed

lemma ucast_low_half:
  fixes d :: u32
  shows "unat (ucast d :: u16) = unat d mod 65536"
    and "d \<le> 4095 \<Longrightarrow> unat (ucast d :: u16) = unat d"
    and "d \<le> 4095 \<Longrightarrow> (ucast d :: u16) \<le> 4095"
proof -
  show 1: "unat (ucast d :: u16) = unat d mod 65536"
    by (simp add: unsigned_ucast_eq take_bit_eq_mod)
  assume "d \<le> 4095"
  then have "unat d \<le> 4095" by (simp add: word_le_nat_alt)
  then show "unat (ucast d :: u16) = unat d" "(ucast d :: u16) \<le> 4095"
    by (simp_all add: 1 word_le_nat_alt)
qed

lemma fixed_dr_read:
  "returned (adc_read (Suc n) (fixed_dr d) ch s) = Some (ucast d)"
  "obs (fixed_dr d) ADC_DR h = d"
  by (simp_all add: adc_read_unfold adc_read_finish_def wait_while_clear_Suc obs_def fixed_dr_def)

lemma and_not_sub:
  "(x AND NOT a) AND NOT x = (0 :: 'a::len word)"
  "(x AND NOT a AND NOT b) AND NOT x = (0 :: 'a::len word)"
  by (rule bit_eqI, auto simp: bit_simps)+

lemma mock_tick_cr: "cr (mock_tick h) AND NOT (cr h) = 0"
  by (cases "job h"; simp add: mock_tick_def and_not_sub split: nat.split)

lemma mock_write_other_cr: "r \<noteq> ADC_CR \<Longrightarrow> cr (mock_write r v h) = cr h"
  by (cases r) (simp_all add: mock_write_def)

lemma mock_write_cr_bit:
  assumes "bit (cr (mock_write_cr v h)) i" and "i \<noteq> 28" and "i \<noteq> 29" and "i \<noteq> 1"
  shows "bit (cr h) i \<or> bit v i"
  using assms unfolding mock_write_cr_def Let_def
  by (auto simp: bit_simps mask_bits test_bits split: if_splits)

lemma mock_write_cr_rises:
  assumes "m \<in> {ADC_CR_ADEN, ADC_CR_ADCAL, ADC_CR_ADSTART}"
  shows "cr (mock_write_cr v h) AND m AND NOT (cr h) AND NOT v = 0"
proof (rule bit_eqI)
  fix n
  have "\<not> (bit (cr (mock_write_cr v h)) n \<and> bit m n \<and> \<not> bit (cr h) n \<and> \<not> bit v n)"
    using assms mock_write_cr_bit [of v h n] by (auto simp: mask_bits)
  then show "bit (cr (mock_write_cr v h) AND m AND NOT (cr h) AND NOT v) n = bit (0 :: u32) n"
    by (auto simp: bit_simps)
qed

lemma and_self_not: "x AND m AND NOT x = (0 :: 'a::len word)"
  by (rule bit_eqI) (auto simp: bit_simps)

lemma and_mask_mono: "x AND NOT y = 0 \<Longrightarrow> x AND m AND NOT y = (0 :: 'a::len word)"
  by (auto simp: bit_eq_iff bit_simps)

lemma raised_mock:
  assumes "m \<in> {ADC_CR_ADEN, ADC_CR_ADCAL, ADC_CR_ADSTART}"
  shows "raised_by_writes_only mock ADC_CR m"
  unfolding raised_by_writes_only_def
proof (intro conjI allI impI)
  fix h r'
  show "obs mock ADC_CR (after_read mock r' h) AND m AND NOT (obs mock ADC_CR h) = 0"
    using mock_tick_cr [of "if r' = ADC_DR then h\<lparr>isr := isr h AND NOT ADC_ISR_EOC\<rparr> else h"]
    by (auto simp: mock_value_def intro: and_mask_mono)
next
  fix h r' v assume "r' \<noteq> ADC_CR"
  then show "obs mock ADC_CR (p_write mock r' v h) AND m AND NOT (obs mock ADC_CR h) = 0"
    by (simp add: mock_value_def mock_write_other_cr and_self_not)
next
  fix h v
  show "obs mock ADC_CR (p_write mock ADC_CR v h) AND m AND NOT (obs mock ADC_CR h) AND NOT v = 0"
    using mock_write_cr_rises [OF assms] by (simp add: mock_value_def mock_write_def)
qed

lemma rise_words:
  "x AND b AND NOT y = 0 \<Longrightarrow> y AND b = 0 \<Longrightarrow> x AND b = (0 :: 'a::len word)"
  "x AND b AND NOT y AND NOT v = 0 \<Longrightarrow> y AND b = 0 \<Longrightarrow> v AND b = 0 \<Longrightarrow> x AND b = (0 :: 'a::len word)"
  "y AND b = 0 \<Longrightarrow> (y AND NOT m) AND b = (0 :: 'a::len word)"
  "y AND b = 0 \<Longrightarrow> m AND b = 0 \<Longrightarrow> (y OR m) AND b = (0 :: 'a::len word)"
  by (auto simp: bit_eq_iff bit_simps)

lemma kept_clear:
  assumes "raised_by_writes_only P r b" and "obs P r h AND b = 0"
  shows "obs P r (after_read P r' h) AND b = 0"
    and "r' \<noteq> r \<Longrightarrow> obs P r (p_write P r' v h) AND b = 0"
    and "v AND b = 0 \<Longrightarrow> obs P r (p_write P r v h) AND b = 0"
  using assms unfolding raised_by_writes_only_def
  by (blast intro: rise_words)+

lemma keep_cr:
  assumes "raised_by_writes_only P ADC_CR b" and "cr_clear P b s"
  shows "cr_clear P b (snd (read_reg P r s))"
    and "r \<noteq> ADC_CR \<Longrightarrow> cr_clear P b (set_bits P r m s)"
    and "r \<noteq> ADC_CR \<Longrightarrow> cr_clear P b (clear_bits P r m s)"
    and "m AND b = 0 \<Longrightarrow> cr_clear P b (set_bits P ADC_CR m s)"
    and "cr_clear P b (clear_bits P ADC_CR m s)"
    and "cr_clear P b (state_of (wait_while_set n P r m s))"
    and "cr_clear P b (state_of (wait_while_clear n P r m s))"
proof -
  note k = kept_clear [OF assms(1)]
  have a: "obs P ADC_CR (hw s) AND b = 0" using assms(2) by (simp add: cr_clear_def)
  have 1: "cr_clear P b (snd (read_reg P r s))" if "cr_clear P b s" for s :: "'a sys" and r
    using that by (simp add: cr_clear_def k(1))
  show "cr_clear P b (snd (read_reg P r s))" by (rule 1 [OF assms(2)])
  show "cr_clear P b (set_bits P r m s)" if "r \<noteq> ADC_CR"
    using a that by (simp add: cr_clear_def k(1) k(2))
  show "cr_clear P b (clear_bits P r m s)" if "r \<noteq> ADC_CR"
    using a that by (simp add: cr_clear_def k(1) k(2))
  show "cr_clear P b (set_bits P ADC_CR m s)" if "m AND b = 0"
    using a that by (simp add: cr_clear_def k(1) k(3) rise_words(4))
  show "cr_clear P b (clear_bits P ADC_CR m s)"
    using a by (simp add: cr_clear_def k(1) k(3) rise_words(3))
  show "cr_clear P b (state_of (wait_while_set n P r m s))"
    by (rule wait_while_set_inv [where I = "cr_clear P b"]) (rule assms(2), rule 1)
  show "cr_clear P b (state_of (wait_while_clear n P r m s))"
    by (rule wait_while_clear_inv [where I = "cr_clear P b"]) (rule assms(2), rule 1)
qed

lemma extends_with_refl [simp]: "extends_with Q s s"
  by (simp add: extends_with_def)

lemma extends_with_more:
  "extends_with Q s s' \<Longrightarrow> trace s'' = trace s' @ t \<Longrightarrow> list_all Q t \<Longrightarrow> extends_with Q s s''"
  by (auto simp: extends_with_def)

lemma extends_with_since: "extends_with Q s s' \<Longrightarrow> list_all Q (since s s')"
  by (auto simp: extends_with_def since_def)

lemma cd_events [simp]:
  "calibration_disabled P (Read r v, h)"
  "r \<noteq> ADC_CR \<Longrightarrow> calibration_disabled P (Write r v, h)"
  "v AND ADC_CR_ADCAL = 0 \<Longrightarrow> calibration_disabled P (Write r v, h)"
  "obs P ADC_CR h AND ADC_CR_ADEN = 0 \<Longrightarrow> calibration_disabled P (Write r v, h)"
  by (simp_all add: calibration_disabled_def)

lemma cd_steps:
  assumes "extends_with (calibration_disabled P) s0 s"
  shows "extends_with (calibration_disabled P) s0 (snd (read_reg P r s))"
    and "r \<noteq> ADC_CR \<Longrightarrow> extends_with (calibration_disabled P) s0 (set_bits P r m s)"
    and "r \<noteq> ADC_CR \<Longrightarrow> extends_with (calibration_disabled P) s0 (clear_bits P r m s)"
    and "raised_by_writes_only P ADC_CR ADC_CR_ADEN \<Longrightarrow> cr_clear P ADC_CR_ADEN s \<Longrightarrow>
           extends_with (calibration_disabled P) s0 (set_bits P ADC_CR m s)"
    and "raised_by_writes_only P ADC_CR ADC_CR_ADEN \<Longrightarrow> cr_clear P ADC_CR_ADEN s \<Longrightarrow>
           extends_with (calibration_disabled P) s0 (clear_bits P ADC_CR m s)"
    and "cr_clear P ADC_CR_ADCAL s \<Longrightarrow> m AND ADC_CR_ADCAL = 0 \<Longrightarrow>
           extends_with (calibration_disabled P) s0 (set_bits P ADC_CR m s)"
    and "extends_with (calibration_disabled P) s0 (state_of (wait_while_set n P r m s))"
    and "extends_with (calibration_disabled P) s0 (state_of (wait_while_clear n P r m s))"
proof -
  have 1: "extends_with (calibration_disabled P) s0 (snd (read_reg P r s))"
    if "extends_with (calibration_disabled P) s0 s" for s :: "'a sys" and r
    by (rule extends_with_more [OF that]) (simp add: trace_prims, simp)
  show "extends_with (calibration_disabled P) s0 (snd (read_reg P r s))" by (rule 1 [OF assms])
  show "extends_with (calibration_disabled P) s0 (set_bits P r m s)" if "r \<noteq> ADC_CR"
    using that by (intro extends_with_more [OF assms]) (simp add: trace_prims, simp)
  show "extends_with (calibration_disabled P) s0 (clear_bits P r m s)" if "r \<noteq> ADC_CR"
    using that by (intro extends_with_more [OF assms]) (simp add: trace_prims, simp)
  show "extends_with (calibration_disabled P) s0 (set_bits P ADC_CR m s)"
    if "raised_by_writes_only P ADC_CR ADC_CR_ADEN" "cr_clear P ADC_CR_ADEN s"
    using kept_clear(1) [OF that(1)] that(2)
    by (intro extends_with_more [OF assms]) (simp add: trace_prims, simp add: cr_clear_def)
  show "extends_with (calibration_disabled P) s0 (clear_bits P ADC_CR m s)"
    if "raised_by_writes_only P ADC_CR ADC_CR_ADEN" "cr_clear P ADC_CR_ADEN s"
    using kept_clear(1) [OF that(1)] that(2)
    by (intro extends_with_more [OF assms]) (simp add: trace_prims, simp add: cr_clear_def)
  show "extends_with (calibration_disabled P) s0 (set_bits P ADC_CR m s)"
    if "cr_clear P ADC_CR_ADCAL s" "m AND ADC_CR_ADCAL = 0"
    using that
    by (intro extends_with_more [OF assms]) (simp add: trace_prims, simp add: cr_clear_def rise_words(4))
  show "extends_with (calibration_disabled P) s0 (state_of (wait_while_set n P r m s))"
    by (rule wait_while_set_inv [where I = "extends_with (calibration_disabled P) s0"])
       (rule assms, rule 1)
  show "extends_with (calibration_disabled P) s0 (state_of (wait_while_clear n P r m s))"
    by (rule wait_while_clear_inv [where I = "extends_with (calibration_disabled P) s0"])
       (rule assms, rule 1)
qed

lemma cd_clocks:
  assumes "raised_by_writes_only P ADC_CR ADC_CR_ADCAL"
    and "extends_with (calibration_disabled P) s0 s" and "cr_clear P ADC_CR_ADCAL s"
  shows "extends_with (calibration_disabled P) s0 (adc_init_clocks P s)"
    and "cr_clear P ADC_CR_ADCAL (adc_init_clocks P s)"
  unfolding adc_init_clocks_def
  by (intro cd_steps(2,3) keep_cr(2,3) [OF assms(1)] assms(2,3); simp)+

lemma cd_disable:
  assumes en: "raised_by_writes_only P ADC_CR ADC_CR_ADEN"
    and cal: "raised_by_writes_only P ADC_CR ADC_CR_ADCAL"
    and e: "extends_with (calibration_disabled P) s0 s" and c: "cr_clear P ADC_CR_ADCAL s"
  shows "case adc_init_disable fuel P s of
           Spin s' \<Rightarrow> extends_with (calibration_disabled P) s0 s'
         | Ret _ s' \<Rightarrow> extends_with (calibration_disabled P) s0 s' \<and> cr_clear P ADC_CR_ADEN s'"
proof (cases "obs P ADC_CR (hw s) AND ADC_CR_ADEN \<noteq> 0")
  case True
  let ?s1 = "snd (read_reg P ADC_CR s)"
  let ?s2 = "set_bits P ADC_CR ADC_CR_ADDIS ?s1"
  have e1: "extends_with (calibration_disabled P) s0 ?s1" by (rule cd_steps(1) [OF e])
  have c1: "cr_clear P ADC_CR_ADCAL ?s1" by (rule keep_cr(1) [OF cal c])
  have e2: "extends_with (calibration_disabled P) s0 ?s2"
    by (rule cd_steps(6) [OF e1 c1]) (simp add: mask_defs)
  have d: "adc_init_disable fuel P s = wait_while_set fuel P ADC_CR ADC_CR_ADEN ?s2"
    using True by (simp add: adc_init_disable_def)
  note w = wait_while_set_rule [where I = "extends_with (calibration_disabled P) s0" and n = fuel
      and P = P and r = ADC_CR and m = ADC_CR_ADEN and s = ?s2, OF e2 cd_steps(1)]
  show ?thesis
  proof (cases "wait_while_set fuel P ADC_CR ADC_CR_ADEN ?s2")
    case (Spin s')
    with w d show ?thesis by simp
  next
    case (Ret u s')
    with w obtain sp where sp: "extends_with (calibration_disabled P) s0 sp"
      "s' = snd (read_reg P ADC_CR sp)" "obs P ADC_CR (hw sp) AND ADC_CR_ADEN = 0"
      by auto
    from sp(3) have "cr_clear P ADC_CR_ADEN sp" by (simp add: cr_clear_def)
    from keep_cr(1) [OF en this] cd_steps(1) [OF sp(1)] sp(2) Ret d show ?thesis by simp
  qed
next
  case False
  then have "cr_clear P ADC_CR_ADEN s" by (simp add: cr_clear_def)
  from keep_cr(1) [OF en this] cd_steps(1) [OF e] False show ?thesis
    by (simp add: adc_init_disable_def)
qed

lemma cd_calibrate:
  assumes en: "raised_by_writes_only P ADC_CR ADC_CR_ADEN"
    and cal: "raised_by_writes_only P ADC_CR ADC_CR_ADCAL"
    and e: "extends_with (calibration_disabled P) s0 s" and a: "cr_clear P ADC_CR_ADEN s"
  shows "case wait_while_set fuel P ADC_CR ADC_CR_ADCAL (adc_init_calibrate P s) of
           Spin s' \<Rightarrow> extends_with (calibration_disabled P) s0 s'
         | Ret _ s' \<Rightarrow> extends_with (calibration_disabled P) s0 s' \<and> cr_clear P ADC_CR_ADCAL s'"
proof -
  let ?s1 = "clear_bits P ADC_CR ADC_CR_DEEPPWD s"
  let ?s2 = "set_bits P ADC_CR ADC_CR_ADVREGEN ?s1"
  let ?s4 = "set_bits P ADC_CR ADC_CR_ADCAL ?s2"
  have e1: "extends_with (calibration_disabled P) s0 ?s1" by (rule cd_steps(5) [OF e en a])
  have a1: "cr_clear P ADC_CR_ADEN ?s1" by (rule keep_cr(5) [OF en a])
  have e2: "extends_with (calibration_disabled P) s0 ?s2" by (rule cd_steps(4) [OF e1 en a1])
  have a2: "cr_clear P ADC_CR_ADEN ?s2" by (rule keep_cr(4) [OF en a1]) (simp add: mask_defs)
  have e4: "extends_with (calibration_disabled P) s0 ?s4" by (rule cd_steps(4) [OF e2 en a2])
  have d: "adc_init_calibrate P s = ?s4" by (simp add: adc_init_calibrate_def)
  note w = wait_while_set_rule [where I = "extends_with (calibration_disabled P) s0" and n = fuel
      and P = P and r = ADC_CR and m = ADC_CR_ADCAL and s = ?s4, OF e4 cd_steps(1)]
  show ?thesis
  proof (cases "wait_while_set fuel P ADC_CR ADC_CR_ADCAL ?s4")
    case (Spin s')
    with w d show ?thesis by simp
  next
    case (Ret u s')
    with w obtain sp where sp: "extends_with (calibration_disabled P) s0 sp"
      "s' = snd (read_reg P ADC_CR sp)" "obs P ADC_CR (hw sp) AND ADC_CR_ADCAL = 0"
      by auto
    from sp(3) have "cr_clear P ADC_CR_ADCAL sp" by (simp add: cr_clear_def)
    from keep_cr(1) [OF cal this] cd_steps(1) [OF sp(1)] sp(2) Ret d show ?thesis by simp
  qed
qed

lemma cd_configure:
  assumes cal: "raised_by_writes_only P ADC_CR ADC_CR_ADCAL"
    and e: "extends_with (calibration_disabled P) s0 s" and c: "cr_clear P ADC_CR_ADCAL s"
  shows "extends_with (calibration_disabled P) s0
           (state_of (wait_while_clear fuel P ADC_ISR ADC_ISR_ADRDY (adc_init_configure P s)))"
proof -
  let ?s5 = "clear_bits P ADC_SQR1 ADC_SQR1_L
       (set_bits P ADC_SMPR1 (push_bit (unat ADC_CHANNEL * 3) SAMP_TIME)
         (clear_bits P ADC_SMPR1 (push_bit (unat ADC_CHANNEL * 3) 7)
           (clear_bits P ADC_CFGR ADC_CFGR_RES
             (clear_bits P ADC_CFGR ADC_CFGR_CONT s))))"
  have e5: "extends_with (calibration_disabled P) s0 ?s5"
    by (intro cd_steps(2,3) e; simp)
  have c5: "cr_clear P ADC_CR_ADCAL ?s5"
    by (intro keep_cr(2,3) [OF cal] c; simp)
  have "extends_with (calibration_disabled P) s0 (set_bits P ADC_CR ADC_CR_ADEN ?s5)"
    by (rule cd_steps(6) [OF e5 c5]) (simp add: mask_defs)
  then show ?thesis
    unfolding adc_init_configure_def by (rule cd_steps(8))
qed

lemma cd_adc_init:
  assumes en: "raised_by_writes_only P ADC_CR ADC_CR_ADEN"
    and cal: "raised_by_writes_only P ADC_CR ADC_CR_ADCAL"
    and c: "cr_clear P ADC_CR_ADCAL s"
  shows "extends_with (calibration_disabled P) s (state_of (adc_init fuel P s))"
proof -
  note k = cd_clocks [OF cal extends_with_refl c]
  note d = cd_disable [OF en cal k, of fuel]
  show ?thesis
  proof (cases "adc_init_disable fuel P (adc_init_clocks P s)")
    case (Spin s1)
    with d show ?thesis by (simp add: adc_init_unfold)
  next
    case r1: (Ret u s1)
    with d have e1: "extends_with (calibration_disabled P) s s1" and a1: "cr_clear P ADC_CR_ADEN s1"
      by simp_all
    note w = cd_calibrate [OF en cal e1 a1, of fuel]
    show ?thesis
    proof (cases "wait_while_set fuel P ADC_CR ADC_CR_ADCAL (adc_init_calibrate P s1)")
      case (Spin s2)
      with w r1 show ?thesis by (simp add: adc_init_unfold)
    next
      case (Ret u' s2)
      with w have e2: "extends_with (calibration_disabled P) s s2" and c2: "cr_clear P ADC_CR_ADCAL s2"
        by simp_all
      from cd_configure [OF cal e2 c2, of fuel] r1 Ret show ?thesis
        by (simp add: adc_init_unfold)
    qed
  qed
qed

lemma cd_after_disable:
  assumes en: "raised_by_writes_only P ADC_CR ADC_CR_ADEN"
    and cal: "raised_by_writes_only P ADC_CR ADC_CR_ADCAL"
    and a: "cr_clear P ADC_CR_ADEN s1"
  shows "extends_with (calibration_disabled P) (adc_init_calibrate P s1)
           (state_of (and_then (wait_while_set fuel P ADC_CR ADC_CR_ADCAL (adc_init_calibrate P s1))
              (\<lambda>_ s2. wait_while_clear fuel P ADC_ISR ADC_ISR_ADRDY (adc_init_configure P s2))))"
proof -
  let ?s4 = "adc_init_calibrate P s1"
  note w = cd_calibrate [OF en cal extends_with_refl a, of fuel]
  have e: "extends_with (calibration_disabled P) ?s4
      (state_of (wait_while_set fuel P ADC_CR ADC_CR_ADCAL ?s4))"
    by (rule cd_steps(7) [OF extends_with_refl])
  show ?thesis
  proof (cases "wait_while_set fuel P ADC_CR ADC_CR_ADCAL ?s4")
    case (Spin s2)
    with e show ?thesis by simp
  next
    case (Ret u s2)
    with w e have "extends_with (calibration_disabled P) ?s4 s2" "cr_clear P ADC_CR_ADCAL s2"
      by simp_all
    from cd_configure [OF cal this, of fuel] Ret show ?thesis by simp
  qed
qed

lemma adc_init_calibrate_trace:
  "\<exists>t c h. trace (adc_init_calibrate P s) = trace s @ t @ [(Write ADC_CR (c OR ADC_CR_ADCAL), h)]"
  by (simp add: adc_init_calibrate_def trace_prims) (rule exI, rule refl)

lemma adc_init_calibration_write:
  assumes en: "raised_by_writes_only P ADC_CR ADC_CR_ADEN"
    and cal: "raised_by_writes_only P ADC_CR ADC_CR_ADCAL"
    and c: "cr_clear P ADC_CR_ADCAL s"
    and r: "returned (adc_init_disable fuel P (adc_init_clocks P s)) \<noteq> None"
  shows "\<exists>x \<in> set (since s (state_of (adc_init fuel P s))). writes_set ADC_CR ADC_CR_ADCAL (fst x)"
proof -
  from r obtain u s1 where r1: "adc_init_disable fuel P (adc_init_clocks P s) = Ret u s1"
    by (cases "adc_init_disable fuel P (adc_init_clocks P s)") auto
  note k = cd_clocks [OF cal extends_with_refl c]
  from cd_disable [OF en cal k, of fuel] r1
  have e1: "extends_with (calibration_disabled P) s s1" and a1: "cr_clear P ADC_CR_ADEN s1"
    by simp_all
  from e1 obtain t1 where t1: "trace s1 = trace s @ t1" by (auto simp: extends_with_def)
  from adc_init_calibrate_trace [of P s1] obtain t2 cc h where
    t2: "trace (adc_init_calibrate P s1) = trace s1 @ t2 @ [(Write ADC_CR (cc OR ADC_CR_ADCAL), h)]"
    by blast
  from cd_after_disable [OF en cal a1, of fuel] r1 obtain t3 where
    "trace (state_of (adc_init fuel P s)) = trace (adc_init_calibrate P s1) @ t3"
    by (auto simp: extends_with_def adc_init_unfold)
  with t1 t2 have "since s (state_of (adc_init fuel P s)) =
      t1 @ t2 @ [(Write ADC_CR (cc OR ADC_CR_ADCAL), h)] @ t3"
    by (simp add: since_def)
  then show ?thesis by simp
qed

lemma wait_while_set_polls:
  "\<exists>polls. list_all (\<lambda>x. reads_set r m (fst x)) polls \<and>
     (case wait_while_set n P r m s of
        Spin s' \<Rightarrow> trace s' = trace s @ polls
      | Ret _ s' \<Rightarrow> \<exists>h. trace s' = trace s @ polls @ [(Read r (obs P r h), h)]
           \<and> obs P r h AND m = 0 \<and> hw s' = after_read P r h)"
proof (induction n arbitrary: s)
  case 0
  show ?case by (rule exI [where x = "[]"]) simp
next
  case (Suc n)
  show ?case
  proof (cases "obs P r (hw s) AND m \<noteq> 0")
    case True
    from Suc [of "snd (read_reg P r s)"] obtain polls where
      p: "list_all (\<lambda>x. reads_set r m (fst x)) polls"
      "case wait_while_set n P r m (snd (read_reg P r s)) of
        Spin s' \<Rightarrow> trace s' = trace (snd (read_reg P r s)) @ polls
      | Ret _ s' \<Rightarrow> \<exists>h. trace s' = trace (snd (read_reg P r s)) @ polls @ [(Read r (obs P r h), h)]
           \<and> obs P r h AND m = 0 \<and> hw s' = after_read P r h"
      by blast
    show ?thesis
      using True p
      by (intro exI [where x = "(Read r (obs P r (hw s)), hw s) # polls"])
         (cases "wait_while_set n P r m (snd (read_reg P r s))";
          simp add: wait_while_set_Suc trace_prims)
  next
    case False
    then show ?thesis
      by (intro exI [where x = "[]"]) (simp add: wait_while_set_Suc trace_prims)
  qed
qed

lemma adc_init_clocks_trace:
  "\<exists>t. trace (adc_init_clocks P s) = trace s @ t \<and> list_all (\<lambda>x. \<not> is_write ADC_CR (fst x)) t"
  by (simp add: adc_init_clocks_def trace_prims)

lemma adc_init_blocks:
  assumes en: "raised_by_writes_only P ADC_CR ADC_CR_ADEN"
    and cal: "raised_by_writes_only P ADC_CR ADC_CR_ADCAL"
    and on: "obs P ADC_CR (hw (adc_init_clocks P s)) AND ADC_CR_ADEN \<noteq> 0"
  shows "\<exists>pre c h polls rest.
     since s (state_of (adc_init fuel P s)) = pre @ (Write ADC_CR (c OR ADC_CR_ADDIS), h) # polls @ rest
     \<and> list_all (\<lambda>x. \<not> is_write ADC_CR (fst x)) pre
     \<and> list_all (\<lambda>x. reads_set ADC_CR ADC_CR_ADEN (fst x)) polls
     \<and> (case rest of [] \<Rightarrow> returned (adc_init fuel P s) = None
        | x # _ \<Rightarrow> is_read ADC_CR (fst x) \<and> \<not> reads_set ADC_CR ADC_CR_ADEN (fst x))"
proof -
  let ?s1 = "adc_init_clocks P s"
  let ?s1' = "snd (read_reg P ADC_CR ?s1)"
  let ?s2 = "set_bits P ADC_CR ADC_CR_ADDIS ?s1'"
  let ?c = "obs P ADC_CR (hw ?s1')"
  let ?h = "after_read P ADC_CR (hw ?s1')"
  from adc_init_clocks_trace [of P s] obtain t0 where
    t0: "trace ?s1 = trace s @ t0" "list_all (\<lambda>x. \<not> is_write ADC_CR (fst x)) t0"
    by blast
  define pre where "pre = t0 @ [(Read ADC_CR (obs P ADC_CR (hw ?s1)), hw ?s1), (Read ADC_CR ?c, hw ?s1')]"
  have pre: "list_all (\<lambda>x. \<not> is_write ADC_CR (fst x)) pre"
    using t0(2) by (simp add: pre_def)
  have t2: "trace ?s2 = trace s @ pre @ [(Write ADC_CR (?c OR ADC_CR_ADDIS), ?h)]"
    using t0(1) by (simp add: pre_def trace_prims)
  have d: "adc_init_disable fuel P ?s1 = wait_while_set fuel P ADC_CR ADC_CR_ADEN ?s2"
    using on by (simp add: adc_init_disable_def)
  from wait_while_set_polls [where r = ADC_CR and m = ADC_CR_ADEN and n = fuel and P = P and s = ?s2]
  obtain polls where
    polls: "list_all (\<lambda>x. reads_set ADC_CR ADC_CR_ADEN (fst x)) polls"
    and w: "case wait_while_set fuel P ADC_CR ADC_CR_ADEN ?s2 of
        Spin s' \<Rightarrow> trace s' = trace ?s2 @ polls
      | Ret _ s' \<Rightarrow> \<exists>h. trace s' = trace ?s2 @ polls @ [(Read ADC_CR (obs P ADC_CR h), h)]
           \<and> obs P ADC_CR h AND ADC_CR_ADEN = 0 \<and> hw s' = after_read P ADC_CR h"
    by blast
  show ?thesis
  proof (cases "wait_while_set fuel P ADC_CR ADC_CR_ADEN ?s2")
    case (Spin s')
    with w d t2 have "since s (state_of (adc_init fuel P s)) =
        pre @ (Write ADC_CR (?c OR ADC_CR_ADDIS), ?h) # polls @ []"
      "returned (adc_init fuel P s) = None"
      by (simp_all add: adc_init_unfold since_def)
    with pre polls show ?thesis
      by (intro exI [where x = pre] exI [where x = ?c] exI [where x = ?h]
            exI [where x = polls] exI [where x = "[]"]) simp
  next
    case (Ret u s')
    with w obtain h where h: "trace s' = trace ?s2 @ polls @ [(Read ADC_CR (obs P ADC_CR h), h)]"
      "obs P ADC_CR h AND ADC_CR_ADEN = 0" "hw s' = after_read P ADC_CR h"
      by auto
    have a: "cr_clear P ADC_CR_ADEN s'"
      using kept_clear(1) [OF en h(2)] by (simp add: cr_clear_def h(3))
    obtain t3 where t3: "trace (adc_init_calibrate P s') = trace s' @ t3"
      using adc_init_calibrate_trace [of P s'] by auto
    from cd_after_disable [OF en cal a, of fuel] Ret d obtain t4 where
      "trace (state_of (adc_init fuel P s)) = trace (adc_init_calibrate P s') @ t4"
      by (auto simp: extends_with_def adc_init_unfold)
    with t3 h(1) t2 have "since s (state_of (adc_init fuel P s)) =
        pre @ (Write ADC_CR (?c OR ADC_CR_ADDIS), ?h) # polls @ ((Read ADC_CR (obs P ADC_CR h), h) # t3 @ t4)"
      by (simp add: since_def)
    with pre polls h(2) show ?thesis
      by (intro exI [where x = pre] exI [where x = ?c] exI [where x = ?h]
            exI [where x = polls] exI [where x = "(Read ADC_CR (obs P ADC_CR h), h) # t3 @ t4"]) simp
  qed
qed

lemma mock_adc_init_disable_ready:
  assumes "mock_ready (hw s)" and "latency (hw s) + 1 < fuel"
  shows "returned (adc_init_disable fuel mock s) = Some ()"
proof -
  let ?s2 = "set_bits mock ADC_CR ADC_CR_ADDIS (snd (read_reg mock ADC_CR s))"
  have on: "obs mock ADC_CR (hw s) AND ADC_CR_ADEN \<noteq> 0"
    using assms(1) by (simp add: mock_ready_def mock_value_def)
  have h: "job (hw ?s2) = Disabling (latency (hw s))" "cr (hw ?s2) AND ADC_CR_ADEN \<noteq> 0"
    using assms(1)
    by (simp_all add: mock_ready_def mock_write_def mock_value_def mock_write_cr_def Let_def
        test_bits bit_simps mask_bits cr_store)
  from mock_wait_disabling [OF h(1) assms(2) h(2)] on show ?thesis
    by (simp add: adc_init_disable_def)
qed

lemma mock_ready_clocks:
  assumes "mock_ready (hw s)"
  shows "mock_ready (hw (adc_init_clocks mock s))"
    and "latency (hw (adc_init_clocks mock s)) = latency (hw s)"
proof -
  have "job (hw s) = Idle" using assms by (simp add: mock_ready_def)
  note h = mock_adc_init_clocks [OF this]
  show "mock_ready (hw (adc_init_clocks mock s))" using assms by (simp add: h mock_ready_def)
  show "latency (hw (adc_init_clocks mock s)) = latency (hw s)" by (simp add: h)
qed

lemma ext_steps:
  assumes "extends_with Q s0 s"
  shows "(\<And>v h. Q (Read r v, h)) \<Longrightarrow> extends_with Q s0 (snd (read_reg P r s))"
    and "(\<And>v h. Q (Read r v, h)) \<Longrightarrow> (\<And>v h. Q (Write r v, h)) \<Longrightarrow>
           extends_with Q s0 (set_bits P r m s)"
    and "(\<And>v h. Q (Read r v, h)) \<Longrightarrow> (\<And>v h. Q (Write r v, h)) \<Longrightarrow>
           extends_with Q s0 (clear_bits P r m s)"
    and "(\<And>v h. Q (Read r v, h)) \<Longrightarrow> extends_with Q s0 (state_of (wait_while_set n P r m s))"
    and "(\<And>v h. Q (Read r v, h)) \<Longrightarrow> extends_with Q s0 (state_of (wait_while_clear n P r m s))"
    and "(\<And>h. Q (e, h)) \<Longrightarrow> extends_with Q s0 (log_event e s)"
proof -
  have 1: "extends_with Q s0 (snd (read_reg P r s))"
    if "extends_with Q s0 s" "\<And>v h. Q (Read r v, h)" for s :: "'a sys"
    by (rule extends_with_more [OF that(1)]) (simp add: trace_prims, simp add: that(2))
  show "extends_with Q s0 (snd (read_reg P r s))" if "\<And>v h. Q (Read r v, h)"
    by (rule 1 [OF assms that])
  show "extends_with Q s0 (set_bits P r m s)" if "\<And>v h. Q (Read r v, h)" "\<And>v h. Q (Write r v, h)"
    by (rule extends_with_more [OF assms]) (simp add: trace_prims, simp add: that)
  show "extends_with Q s0 (clear_bits P r m s)" if "\<And>v h. Q (Read r v, h)" "\<And>v h. Q (Write r v, h)"
    by (rule extends_with_more [OF assms]) (simp add: trace_prims, simp add: that)
  show "extends_with Q s0 (state_of (wait_while_set n P r m s))" if "\<And>v h. Q (Read r v, h)"
    by (rule wait_while_set_inv [where I = "extends_with Q s0"]) (rule assms, rule 1, assumption, rule that)
  show "extends_with Q s0 (state_of (wait_while_clear n P r m s))" if "\<And>v h. Q (Read r v, h)"
    by (rule wait_while_clear_inv [where I = "extends_with Q s0"]) (rule assms, rule 1, assumption, rule that)
  show "extends_with Q s0 (log_event e s)" if "\<And>h. Q (e, h)"
    by (rule extends_with_more [OF assms]) (simp add: log_event_def, simp add: that)
qed

lemma cr_clear_log [simp]: "cr_clear P b (log_event e s) = cr_clear P b s"
  by (simp add: cr_clear_def)

lemma unconverted_steps:
  assumes st: "raised_by_writes_only P ADC_CR ADC_CR_ADSTART" and u: "unconverted P s0 s"
  shows "r \<noteq> ADC_DR \<Longrightarrow> unconverted P s0 (snd (read_reg P r s))"
    and "r \<notin> {ADC_DR, ADC_ISR, ADC_CR} \<Longrightarrow> unconverted P s0 (set_bits P r m s)"
    and "r \<notin> {ADC_DR, ADC_ISR, ADC_CR} \<Longrightarrow> unconverted P s0 (clear_bits P r m s)"
    and "m AND ADC_CR_ADSTART = 0 \<Longrightarrow> unconverted P s0 (set_bits P ADC_CR m s)"
    and "unconverted P s0 (clear_bits P ADC_CR m s)"
    and "r \<noteq> ADC_DR \<Longrightarrow> unconverted P s0 (state_of (wait_while_set n P r m s))"
    and "r \<noteq> ADC_DR \<Longrightarrow> unconverted P s0 (state_of (wait_while_clear n P r m s))"
    and "\<not> conversion_event e \<Longrightarrow> unconverted P s0 (log_event e s)"
proof -
  let ?Q = "\<lambda>x :: event \<times> 'a. \<not> conversion_event (fst x)"
  have e: "extends_with ?Q s0 s" and c: "cr_clear P ADC_CR_ADSTART s"
    using u by (simp_all add: unconverted_def)
  have a: "obs P ADC_CR (hw s) AND ADC_CR_ADSTART = 0" using c by (simp add: cr_clear_def)
  have 1: "unconverted P s0 (snd (read_reg P r s))" if "unconverted P s0 s" "r \<noteq> ADC_DR"
    for s :: "'a sys" and r
    using that keep_cr(1) [OF st, of s r] ext_steps(1) [of ?Q s0 s r P]
    by (simp add: unconverted_def)
  show "unconverted P s0 (snd (read_reg P r s))" if "r \<noteq> ADC_DR"
    by (rule 1 [OF u that])
  show "unconverted P s0 (set_bits P r m s)" if "r \<notin> {ADC_DR, ADC_ISR, ADC_CR}"
    using that keep_cr(2) [OF st c, of r m] ext_steps(2) [OF e, of r P m]
    by (simp add: unconverted_def)
  show "unconverted P s0 (clear_bits P r m s)" if "r \<notin> {ADC_DR, ADC_ISR, ADC_CR}"
    using that keep_cr(3) [OF st c, of r m] ext_steps(3) [OF e, of r P m]
    by (simp add: unconverted_def)
  show "unconverted P s0 (set_bits P ADC_CR m s)" if "m AND ADC_CR_ADSTART = 0"
  proof -
    have "extends_with ?Q s0 (set_bits P ADC_CR m s)"
      using a that by (intro extends_with_more [OF e]) (simp add: trace_prims, simp add: rise_words(4))
    with keep_cr(4) [OF st c that] show ?thesis by (simp add: unconverted_def)
  qed
  show "unconverted P s0 (clear_bits P ADC_CR m s)"
  proof -
    have "extends_with ?Q s0 (clear_bits P ADC_CR m s)"
      using a by (intro extends_with_more [OF e]) (simp add: trace_prims, simp add: rise_words(3))
    with keep_cr(5) [OF st c] show ?thesis by (simp add: unconverted_def)
  qed
  show "unconverted P s0 (state_of (wait_while_set n P r m s))" if "r \<noteq> ADC_DR"
    by (rule wait_while_set_inv [where I = "unconverted P s0"]) (rule u, rule 1, assumption, rule that)
  show "unconverted P s0 (state_of (wait_while_clear n P r m s))" if "r \<noteq> ADC_DR"
    by (rule wait_while_clear_inv [where I = "unconverted P s0"]) (rule u, rule 1, assumption, rule that)
  show "unconverted P s0 (log_event e s)" if "\<not> conversion_event e"
    using that c ext_steps(6) [OF e, of e] by (simp add: unconverted_def)
qed

lemma unconverted_main_setup:
  assumes st: "raised_by_writes_only P ADC_CR ADC_CR_ADSTART" and u: "unconverted P s0 s"
  shows "unconverted P s0 (main_setup P s)"
  unfolding main_setup_def Let_def arduino_init_def serial_begin_def
  by (intro unconverted_steps(2,8) [OF st] u; simp)

lemma unconverted_adc_init:
  assumes st: "raised_by_writes_only P ADC_CR ADC_CR_ADSTART" and u: "unconverted P s0 s"
  shows "unconverted P s0 (state_of (adc_init fuel P s))"
proof -
  have k: "unconverted P s0 (adc_init_clocks P s)"
    unfolding adc_init_clocks_def by (intro unconverted_steps(2,3) [OF st] u; simp)
  have d: "unconverted P s0 (state_of (adc_init_disable fuel P s1))" if "unconverted P s0 s1" for s1
    unfolding adc_init_disable_def
    by (auto intro!: unconverted_steps(1,4,6) [OF st] that simp: mask_defs)
  have c: "unconverted P s0 (state_of (wait_while_set fuel P ADC_CR ADC_CR_ADCAL (adc_init_calibrate P s1)))"
    if "unconverted P s0 s1" for s1
    unfolding adc_init_calibrate_def settle_loop_id
    by (intro unconverted_steps(4,5,6) [OF st] that; simp add: mask_defs)
  have f: "unconverted P s0 (state_of (wait_while_clear fuel P ADC_ISR ADC_ISR_ADRDY (adc_init_configure P s1)))"
    if "unconverted P s0 s1" for s1
    unfolding adc_init_configure_def
    by (intro unconverted_steps(2,3,4,7) [OF st] that; simp add: mask_defs)
  show ?thesis
    unfolding adc_init_unfold
  proof (rule state_of_and_then_pres [where Q = "unconverted P s0"])
    show "unconverted P s0 (state_of (adc_init_disable fuel P (adc_init_clocks P s)))"
      by (rule d [OF k])
    fix a s1 assume u1: "unconverted P s0 s1"
    show "unconverted P s0
       (state_of (and_then (wait_while_set fuel P ADC_CR ADC_CR_ADCAL (adc_init_calibrate P s1))
          (\<lambda>_ s2. wait_while_clear fuel P ADC_ISR ADC_ISR_ADRDY (adc_init_configure P s2))))"
    proof (rule state_of_and_then_pres [where Q = "unconverted P s0"])
      show "unconverted P s0 (state_of (wait_while_set fuel P ADC_CR ADC_CR_ADCAL (adc_init_calibrate P s1)))"
        by (rule c [OF u1])
      fix a' s2 assume "unconverted P s0 s2"
      then show "unconverted P s0
          (state_of (wait_while_clear fuel P ADC_ISR ADC_ISR_ADRDY (adc_init_configure P s2)))"
        by (rule f)
    qed
  qed
qed

lemma adc_read_extends: "\<exists>t. trace (state_of (adc_read n P ch s)) = trace s @ t"
proof -
  from adc_read_trace [of n P ch s] obtain pre h5 polls fin where
    "trace (state_of (adc_read n P ch s)) = trace s @ (DigitalWrite PIN_SAMPLE True, hw s) # pre @
       [(Read ADC_ISR (obs P ADC_ISR h5), h5),
        (Write ADC_ISR (obs P ADC_ISR h5 OR ADC_ISR_EOC), after_read P ADC_ISR h5),
        (Read ADC_CR (obs P ADC_CR (p_write P ADC_ISR (obs P ADC_ISR h5 OR ADC_ISR_EOC) (after_read P ADC_ISR h5))),
           p_write P ADC_ISR (obs P ADC_ISR h5 OR ADC_ISR_EOC) (after_read P ADC_ISR h5)),
        (Write ADC_CR
           (obs P ADC_CR (p_write P ADC_ISR (obs P ADC_ISR h5 OR ADC_ISR_EOC) (after_read P ADC_ISR h5))
              OR ADC_CR_ADSTART),
           after_read P ADC_CR (p_write P ADC_ISR (obs P ADC_ISR h5 OR ADC_ISR_EOC) (after_read P ADC_ISR h5)))]
       @ polls @ fin"
    by blast
  then show ?thesis by simp
qed

lemma main_iteration_extends: "\<exists>t. trace (state_of (main_iteration fuel P s)) = trace s @ t"
proof (cases "adc_read fuel P ADC_CHANNEL s")
  case (Spin s1)
  with adc_read_extends [of fuel P ADC_CHANNEL s] show ?thesis
    by (simp add: main_iteration_spin [OF Spin])
next
  case (Ret v s1)
  with adc_read_extends [of fuel P ADC_CHANNEL s] obtain t where "trace s1 = trace s @ t"
    by auto
  then show ?thesis
    by (simp add: main_iteration_ret [OF Ret] trace_prims)
qed

lemma main_loop_extends: "\<exists>t. trace (state_of (main_loop k fuel P s)) = trace s @ t"
proof (induction k arbitrary: s)
  case 0
  show ?case by simp
next
  case (Suc k)
  show ?case
  proof (cases "main_iteration fuel P s")
    case (Spin s1)
    with main_iteration_extends [of fuel P s] show ?thesis by simp
  next
    case (Ret u s1)
    with main_iteration_extends [of fuel P s] obtain t where "trace s1 = trace s @ t"
      by auto
    with Suc [of s1] Ret show ?thesis by auto
  qed
qed

lemma main_trace_split:
  "\<exists>rest. trace (state_of (main k fuel P s)) = trace (state_of (adc_init fuel P (main_setup P s))) @ rest
     \<and> (returned (adc_init fuel P (main_setup P s)) = None \<longrightarrow> rest = [])"
proof (cases "adc_init fuel P (main_setup P s)")
  case (Spin s1)
  then show ?thesis by (simp add: main_def)
next
  case (Ret u s1)
  from main_loop_extends [of k fuel P "main_pins s1"] obtain t where
    "trace (state_of (main_loop k fuel P (main_pins s1))) = trace (main_pins s1) @ t"
    by blast
  with Ret show ?thesis
    by (simp add: main_def main_pins_def Let_def trace_prims)
qed

lemma adc_init_shape:
  fixes P :: "'h periph"
  defines "Q \<equiv> \<lambda>x :: event \<times> 'h. \<not> is_write ADC_SQR1 (fst x) \<and> \<not> is_read ADC_ISR (fst x)"
  assumes e: "extends_with Q s0 s"
  shows "(returned (adc_init fuel P s) = None \<and> list_all Q (since s0 (state_of (adc_init fuel P s))))
    \<or> (\<exists>pre h v h2 polls.
         since s0 (state_of (adc_init fuel P s)) =
           pre @ [(Read ADC_SQR1 (obs P ADC_SQR1 h), h),
                  (Write ADC_SQR1 (obs P ADC_SQR1 h AND NOT ADC_SQR1_L), after_read P ADC_SQR1 h),
                  (Read ADC_CR v, h2),
                  (Write ADC_CR (v OR ADC_CR_ADEN), after_read P ADC_CR h2)] @ polls
         \<and> list_all Q pre \<and> list_all (\<lambda>x. is_read ADC_ISR (fst x)) polls
         \<and> (case returned (adc_init fuel P s) of None \<Rightarrow> True
            | Some _ \<Rightarrow> polls \<noteq> [] \<and> reads_set ADC_ISR ADC_ISR_ADRDY (fst (last polls))))"
proof -
  have rd: "Q (Read r v, h)" if "r \<noteq> ADC_ISR" for r v h using that by (simp add: Q_def)
  have wr: "Q (Write r v, h)" if "r \<noteq> ADC_SQR1" for r v h using that by (simp add: Q_def)
  have k: "extends_with Q s0 (adc_init_clocks P s)"
    unfolding adc_init_clocks_def by (intro ext_steps(2,3) e rd wr; simp)
  have d: "extends_with Q s0 (state_of (adc_init_disable fuel P (adc_init_clocks P s)))"
    unfolding adc_init_disable_def
    by (auto intro!: ext_steps(1,2,4) k rd wr)
  show ?thesis
  proof (cases "adc_init_disable fuel P (adc_init_clocks P s)")
    case (Spin s1)
    with d have "list_all Q (since s0 (state_of (adc_init fuel P s)))"
      "returned (adc_init fuel P s) = None"
      by (simp_all add: adc_init_unfold extends_with_since)
    then show ?thesis by simp
  next
    case r1: (Ret u s1)
    with d have e1: "extends_with Q s0 s1" by simp
    have c: "extends_with Q s0 (state_of (wait_while_set fuel P ADC_CR ADC_CR_ADCAL (adc_init_calibrate P s1)))"
      unfolding adc_init_calibrate_def settle_loop_id
      by (intro ext_steps(2,3,4) e1 rd wr; simp)
    show ?thesis
    proof (cases "wait_while_set fuel P ADC_CR ADC_CR_ADCAL (adc_init_calibrate P s1)")
      case (Spin s2)
      with c r1 have "list_all Q (since s0 (state_of (adc_init fuel P s)))"
        "returned (adc_init fuel P s) = None"
        by (simp_all add: adc_init_unfold extends_with_since)
      then show ?thesis by simp
    next
      case r2: (Ret u' s2)
      with c have e2: "extends_with Q s0 s2" by simp
      define s5 where "s5 = set_bits P ADC_SMPR1 (push_bit (unat ADC_CHANNEL * 3) SAMP_TIME)
           (clear_bits P ADC_SMPR1 (push_bit (unat ADC_CHANNEL * 3) 7)
             (clear_bits P ADC_CFGR ADC_CFGR_RES
               (clear_bits P ADC_CFGR ADC_CFGR_CONT s2)))"
      define s6 where "s6 = clear_bits P ADC_SQR1 ADC_SQR1_L s5"
      have "extends_with Q s0 s5"
        unfolding s5_def by (intro ext_steps(2,3) e2 rd wr; simp)
      then obtain pre where pre: "trace s5 = trace s0 @ pre" "list_all Q pre"
        by (auto simp: extends_with_def)
      have cf: "adc_init_configure P s2 = set_bits P ADC_CR ADC_CR_ADEN s6"
        by (simp add: adc_init_configure_def s5_def s6_def)
      have t6: "trace s6 = trace s5 @ [(Read ADC_SQR1 (obs P ADC_SQR1 (hw s5)), hw s5),
          (Write ADC_SQR1 (obs P ADC_SQR1 (hw s5) AND NOT ADC_SQR1_L), after_read P ADC_SQR1 (hw s5))]"
        by (simp add: s6_def trace_prims)
      have t7: "trace (adc_init_configure P s2) = trace s6 @ [(Read ADC_CR (obs P ADC_CR (hw s6)), hw s6),
          (Write ADC_CR (obs P ADC_CR (hw s6) OR ADC_CR_ADEN), after_read P ADC_CR (hw s6))]"
        unfolding cf by (simp add: trace_prims)
      have u: "adc_init fuel P s = wait_while_clear fuel P ADC_ISR ADC_ISR_ADRDY (adc_init_configure P s2)"
        using r1 r2 by (simp add: adc_init_unfold)
      have "\<exists>polls. trace (state_of (adc_init fuel P s)) = trace (adc_init_configure P s2) @ polls
          \<and> list_all (\<lambda>x. is_read ADC_ISR (fst x)) polls
          \<and> (case returned (adc_init fuel P s) of None \<Rightarrow> True
             | Some _ \<Rightarrow> polls \<noteq> [] \<and> reads_set ADC_ISR ADC_ISR_ADRDY (fst (last polls)))"
      proof (cases "returned (adc_init fuel P s)")
        case None
        with wait_while_clear_trace [of fuel P ADC_ISR ADC_ISR_ADRDY "adc_init_configure P s2"]
        show ?thesis by (simp add: u)
      next
        case (Some a)
        then have "returned (wait_while_clear fuel P ADC_ISR ADC_ISR_ADRDY (adc_init_configure P s2)) = Some a"
          by (simp add: u)
        from wait_while_clear_last [OF this] obtain t h where
          "trace (state_of (adc_init fuel P s)) =
             trace (adc_init_configure P s2) @ t @ [(Read ADC_ISR (obs P ADC_ISR h), h)]"
          "obs P ADC_ISR h AND ADC_ISR_ADRDY \<noteq> 0" "list_all (\<lambda>x. is_read ADC_ISR (fst x)) t"
          unfolding u by blast
        with Some show ?thesis
          by (intro exI [where x = "t @ [(Read ADC_ISR (obs P ADC_ISR h), h)]"]) simp
      qed
      then obtain polls where
        p: "trace (state_of (adc_init fuel P s)) = trace (adc_init_configure P s2) @ polls"
          "list_all (\<lambda>x. is_read ADC_ISR (fst x)) polls"
          "case returned (adc_init fuel P s) of None \<Rightarrow> True
             | Some _ \<Rightarrow> polls \<noteq> [] \<and> reads_set ADC_ISR ADC_ISR_ADRDY (fst (last polls))"
        by blast
      have "since s0 (state_of (adc_init fuel P s)) =
           pre @ [(Read ADC_SQR1 (obs P ADC_SQR1 (hw s5)), hw s5),
                  (Write ADC_SQR1 (obs P ADC_SQR1 (hw s5) AND NOT ADC_SQR1_L), after_read P ADC_SQR1 (hw s5)),
                  (Read ADC_CR (obs P ADC_CR (hw s6)), hw s6),
                  (Write ADC_CR (obs P ADC_CR (hw s6) OR ADC_CR_ADEN), after_read P ADC_CR (hw s6))] @ polls"
        unfolding since_def p(1) t7 t6 pre(1) by simp
      with pre(2) p(2,3) show ?thesis
        by (intro disjI2 exI [where x = pre] exI [where x = "hw s5"]
              exI [where x = "obs P ADC_CR (hw s6)"] exI [where x = "hw s6"] exI [where x = polls])
           simp
    qed
  qed
qed

lemma main_setup_quiet:
  "extends_with (\<lambda>x. \<not> is_write ADC_SQR1 (fst x) \<and> \<not> is_read ADC_ISR (fst x)) s (main_setup P s)"
  unfolding main_setup_def Let_def arduino_init_def serial_begin_def
  by (intro ext_steps(2,6) extends_with_refl; simp)

lemma reads_setD: "reads_set r m (fst x) \<Longrightarrow> \<exists>v h. x = (Read r v, h) \<and> v AND m \<noteq> 0"
  by (cases x; cases "fst x"; auto)

lemma filter_none: "list_all (\<lambda>x. \<not> Q x) xs \<Longrightarrow> filter Q xs = []"
  by (induction xs) auto

lemma mock_off_main_setup:
  assumes "mock_off (hw s)"
  shows "mock_off (hw (main_setup mock s))" and "latency (hw (main_setup mock s)) = latency (hw s)"
proof -
  have "job (hw s) = Idle" using assms by (simp add: mock_off_def)
  note h = mock_main_setup [OF this]
  show "mock_off (hw (main_setup mock s))" using assms by (simp add: h mock_off_def)
  show "latency (hw (main_setup mock s)) = latency (hw s)" by (simp add: h)
qed

lemma mock_boot_init:
  "returned (adc_init 5 mock (main_setup mock (boot (mock_reset 2 ain)))) = Some ()"
proof -
  have off: "mock_off (hw (boot (mock_reset 2 ain)))" by (simp add: boot_def)
  have "latency (hw (main_setup mock (boot (mock_reset 2 ain)))) + 1 < 5"
    by (simp add: mock_off_main_setup(2) [OF off]) (simp add: boot_def mock_reset_def)
  from mock_adc_init(1) [OF mock_off_main_setup(1) [OF off] this] show ?thesis .
qed

section \<open>The claims\<close>

text \<open>
  C1. For every sample value in 0..4095, the frame emitted in one iteration of the main loop is
  exactly the four bytes 0xAA, 0xAA, low byte, high byte, in that order, where the low byte is
  \<^verbatim>\<open>sample & 0xFF\<close> and the high byte \<^verbatim>\<open>sample >> 8\<close>, and
  \<^verbatim>\<open>low | (high << 8)\<close> gives the sample back; sample 0x0000 frames as AA AA 00 00 and sample
  0x0FFF as AA AA FF 0F. The sample is what \<^verbatim>\<open>adc_read\<close> returned in that iteration, and the
  frame is what the iteration appended to the serial sink.
\<close>

theorem frame_shape:
  assumes "returned (adc_read fuel P ADC_CHANNEL s) = Some sample" and "sample \<le> 4095"
  shows "\<exists>s' lo hi. main_iteration fuel P s = Ret () s'
           \<and> serial s' = serial s @ [0xAA, 0xAA, lo, hi]
           \<and> lo = ucast (sample AND 0xFF) \<and> hi = ucast (drop_bit 8 sample)
           \<and> ucast lo OR push_bit 8 (ucast hi) = sample
           \<and> (sample = 0 \<longrightarrow> serial s' = serial s @ [0xAA, 0xAA, 0x00, 0x00])
           \<and> (sample = 0xFFF \<longrightarrow> serial s' = serial s @ [0xAA, 0xAA, 0xFF, 0x0F])"
proof -
  from assms(1)
  have r: "adc_read fuel P ADC_CHANNEL s = Ret sample (state_of (adc_read fuel P ADC_CHANNEL s))"
    by (simp add: returned_Some_iff)
  show ?thesis
    unfolding main_iteration_ret [OF r] by (simp add: lo_byte hi_byte roundtrip)
qed

theorem frame_shape_witness:
  "returned (adc_read 5 mock ADC_CHANNEL
       (state_of (adc_init 5 mock (boot (mock_reset 2 (\<lambda>_. 0xFFF)))))) = Some 0xFFF
   \<and> (0xFFF :: u16) \<le> 4095
   \<and> (\<exists>s'. main_iteration 5 mock (state_of (adc_init 5 mock (boot (mock_reset 2 (\<lambda>_. 0xFFF))))) = Ret () s'
         \<and> serial s' = [0xAA, 0xAA, 0xFF, 0x0F])"
proof -
  let ?b = "boot (mock_reset 2 (\<lambda>_. 0xFFF))"
  let ?s = "state_of (adc_init 5 mock ?b)"
  have off: "mock_off (hw ?b)" "latency (hw ?b) + 1 < 5"
    by (simp_all add: boot_def) (simp add: mock_reset_def)
  note rdy = mock_ready_after_init [OF off]
  have lat: "latency (hw ?s) + 1 < 5" using rdy(2) off(2) by simp
  have h1: "returned (adc_read 5 mock ADC_CHANNEL ?s) = Some 0xFFF"
    using mock_adc_read(1) [OF rdy(1) lat, of ADC_CHANNEL] rdy(3)
    by (simp add: boot_def mock_reset_def)
  have h2: "(0xFFF :: u16) \<le> 4095" by simp
  have h3: "serial ?s = []" by (simp add: boot_def)
  from frame_shape [OF h1 h2] h1 h2 h3 show ?thesis by auto
qed

text \<open>
  C9. In every call of \<^verbatim>\<open>adc_read\<close> the flag clear is a read-modify-write: the status register is
  read (value \<open>c\<close>) and \<open>c OR EOC\<close> is written back, the only write to that register in the call.
  The written value has the EOC bit and a 1 at every bit that was set in \<open>c\<close>; so on a
  write-1-to-clear status register every flag that was set when the register was read is cleared
  along with EOC, not the end-of-conversion flag alone.
\<close>

theorem flag_clear_writes_back_all_flags:
  "\<exists>pre c h post.
     since s (state_of (adc_read fuel P channel s)) =
       pre @ [(Read ADC_ISR c, h), (Write ADC_ISR (c OR ADC_ISR_EOC), after_read P ADC_ISR h)] @ post
     \<and> c = obs P ADC_ISR h
     \<and> list_all (\<lambda>x. \<not> is_write ADC_ISR (fst x)) (pre @ post)
     \<and> (c OR ADC_ISR_EOC) AND ADC_ISR_EOC = ADC_ISR_EOC
     \<and> (c OR ADC_ISR_EOC) AND c = c
     \<and> (w1c P ADC_ISR \<longrightarrow>
          obs P ADC_ISR (p_write P ADC_ISR (c OR ADC_ISR_EOC) (after_read P ADC_ISR h))
            AND (c OR ADC_ISR_EOC) = 0)"
proof -
  from adc_read_trace [of fuel P channel s] obtain pre h5 polls fin where
    tr: "trace (state_of (adc_read fuel P channel s)) = trace s @ (DigitalWrite PIN_SAMPLE True, hw s) # pre @
       [(Read ADC_ISR (obs P ADC_ISR h5), h5),
        (Write ADC_ISR (obs P ADC_ISR h5 OR ADC_ISR_EOC), after_read P ADC_ISR h5),
        (Read ADC_CR (obs P ADC_CR (p_write P ADC_ISR (obs P ADC_ISR h5 OR ADC_ISR_EOC) (after_read P ADC_ISR h5))),
           p_write P ADC_ISR (obs P ADC_ISR h5 OR ADC_ISR_EOC) (after_read P ADC_ISR h5)),
        (Write ADC_CR
           (obs P ADC_CR (p_write P ADC_ISR (obs P ADC_ISR h5 OR ADC_ISR_EOC) (after_read P ADC_ISR h5))
              OR ADC_CR_ADSTART),
           after_read P ADC_CR (p_write P ADC_ISR (obs P ADC_ISR h5 OR ADC_ISR_EOC) (after_read P ADC_ISR h5)))]
       @ polls @ fin"
    and pre: "list_all (\<lambda>x. is_read ADC_SQR1 (fst x) \<or> is_write ADC_SQR1 (fst x)) pre"
    and polls: "list_all (\<lambda>x. is_read ADC_ISR (fst x)) polls"
    and fin: "case returned (adc_read fuel P channel s) of
           None \<Rightarrow> fin = []
         | Some v \<Rightarrow> polls \<noteq> [] \<and> reads_set ADC_ISR ADC_ISR_EOC (fst (last polls))
             \<and> (\<exists>h9. fin = [(DigitalWrite PIN_SAMPLE False, h9), (Read ADC_DR (obs P ADC_DR h9), h9)]
                     \<and> v = ucast (obs P ADC_DR h9))"
    by (elim exE conjE)
  let ?Q = "\<lambda>x :: event \<times> 'a. \<not> is_write ADC_ISR (fst x)"
  have 1: "list_all ?Q pre"
    by (rule list_all_imp [OF pre]) (auto dest: kinds)
  have 2: "list_all ?Q polls"
    by (rule list_all_imp [OF polls]) (auto dest: kinds)
  have 3: "list_all ?Q fin"
    using fin by (cases "returned (adc_read fuel P channel s)") auto
  have 4: "w1c P ADC_ISR \<longrightarrow>
          obs P ADC_ISR (p_write P ADC_ISR (obs P ADC_ISR h5 OR ADC_ISR_EOC) (after_read P ADC_ISR h5))
            AND (obs P ADC_ISR h5 OR ADC_ISR_EOC) = 0"
    by (metis w1c_def and_not_same)
  have 5: "(x OR ADC_ISR_EOC) AND x = x" for x :: u32
    by (rule bit_eqI) (auto simp: bit_simps)
  show ?thesis
    apply (rule exI [where x = "(DigitalWrite PIN_SAMPLE True, hw s) # pre"])
    apply (rule exI [where x = "obs P ADC_ISR h5"])
    apply (rule exI [where x = "h5"])
    apply (rule exI [where x = "[(Read ADC_CR (obs P ADC_CR (p_write P ADC_ISR (obs P ADC_ISR h5 OR ADC_ISR_EOC) (after_read P ADC_ISR h5))),
           p_write P ADC_ISR (obs P ADC_ISR h5 OR ADC_ISR_EOC) (after_read P ADC_ISR h5)),
        (Write ADC_CR
           (obs P ADC_CR (p_write P ADC_ISR (obs P ADC_ISR h5 OR ADC_ISR_EOC) (after_read P ADC_ISR h5))
              OR ADC_CR_ADSTART),
           after_read P ADC_CR (p_write P ADC_ISR (obs P ADC_ISR h5 OR ADC_ISR_EOC) (after_read P ADC_ISR h5)))] @ polls @ fin"])
    using 1 2 3 4 5 apply (simp add: since_append [OF tr])
    done
qed

theorem flag_clear_writes_back_all_flags_witness:
  "w1c mock ADC_ISR
   \<and> obs mock ADC_ISR (hw (state_of (adc_init 5 mock (boot (mock_reset 2 (\<lambda>_. 0)))))) AND ADC_ISR_ADRDY \<noteq> 0
   \<and> obs mock ADC_ISR (hw (state_of (adc_read 5 mock 5
         (state_of (adc_init 5 mock (boot (mock_reset 2 (\<lambda>_. 0)))))))) AND ADC_ISR_ADRDY = 0
   \<and> (\<exists>pre c h post.
        since (state_of (adc_init 5 mock (boot (mock_reset 2 (\<lambda>_. 0)))))
          (state_of (adc_read 5 mock 5 (state_of (adc_init 5 mock (boot (mock_reset 2 (\<lambda>_. 0))))))) =
          pre @ [(Read ADC_ISR c, h), (Write ADC_ISR (c OR ADC_ISR_EOC), after_read mock ADC_ISR h)] @ post
        \<and> obs mock ADC_ISR (p_write mock ADC_ISR (c OR ADC_ISR_EOC) (after_read mock ADC_ISR h))
            AND (c OR ADC_ISR_EOC) = 0)"
proof -
  let ?s0 = "state_of (adc_init 5 mock (boot (mock_reset 2 (\<lambda>_. 0))))"
  note d = mock_demo [of "\<lambda>_. 0"]
  have a: "obs mock ADC_ISR (hw ?s0) AND ADC_ISR_ADRDY \<noteq> 0"
    by (simp add: mock_value_def d(5))
  have b: "obs mock ADC_ISR (hw (state_of (adc_read 5 mock 5 ?s0))) AND ADC_ISR_ADRDY = 0"
    by (simp add: mock_value_def mock_adc_read(2) [OF d(2) d(3)])
  from flag_clear_writes_back_all_flags [of ?s0 5 mock 5]
  obtain pre c h post where
    "since ?s0 (state_of (adc_read 5 mock 5 ?s0)) =
       pre @ [(Read ADC_ISR c, h), (Write ADC_ISR (c OR ADC_ISR_EOC), after_read mock ADC_ISR h)] @ post"
    and "w1c mock ADC_ISR \<longrightarrow>
          obs mock ADC_ISR (p_write mock ADC_ISR (c OR ADC_ISR_EOC) (after_read mock ADC_ISR h))
            AND (c OR ADC_ISR_EOC) = 0"
    by (elim exE conjE)
  with w1c_mock a b show ?thesis
    by (intro conjI exI [where x = pre] exI [where x = c] exI [where x = h] exI [where x = post])
       simp_all
qed

text \<open>
  C10. Every call of \<^verbatim>\<open>adc_read\<close> drives the sample probe high first, before any register
  access; everything up to the end of the wait is register accesses (none of them a read of the data
  register); when the call returns, the last poll saw EOC set, then the probe is driven low, then the
  data register is read, so the probe is low at return. Over any sequence of calls that all return,
  the levels written to the probe are high, low, high, low, ...: one pair per call.
\<close>

theorem probe_brackets_conversion:
  "(\<exists>mid fin.
      map fst (since s (state_of (adc_read fuel P channel s))) = DigitalWrite PIN_SAMPLE True # mid @ fin
      \<and> list_all is_access mid \<and> list_all (\<lambda>e. \<not> is_read ADC_DR e) mid
      \<and> (case returned (adc_read fuel P channel s) of
            None \<Rightarrow> fin = []
          | Some v \<Rightarrow> mid \<noteq> [] \<and> reads_set ADC_ISR ADC_ISR_EOC (last mid)
              \<and> (\<exists>d. fin = [DigitalWrite PIN_SAMPLE False, Read ADC_DR d])
              \<and> \<not> levels (state_of (adc_read fuel P channel s)) PIN_SAMPLE))
   \<and> (\<forall>vs. returned (adc_reads fuel P chs s) = Some vs \<longrightarrow>
         probe_levels (map fst (since s (state_of (adc_reads fuel P chs s))))
           = concat (map (\<lambda>_. [True, False]) chs)
         \<and> (chs \<noteq> [] \<longrightarrow> \<not> levels (state_of (adc_reads fuel P chs s)) PIN_SAMPLE))"
proof (intro conjI allI impI)
  from adc_read_events [of fuel P channel s] obtain t mid fin where
    t: "trace (state_of (adc_read fuel P channel s)) = trace s @ t"
      "map fst t = DigitalWrite PIN_SAMPLE True # mid @ fin"
      "list_all is_access mid" "list_all (\<lambda>e. \<not> is_read ADC_DR e) mid"
      "case returned (adc_read fuel P channel s) of
           None \<Rightarrow> fin = []
         | Some v \<Rightarrow> mid \<noteq> [] \<and> reads_set ADC_ISR ADC_ISR_EOC (last mid)
             \<and> (\<exists>d. fin = [DigitalWrite PIN_SAMPLE False, Read ADC_DR d])"
    by (elim exE conjE)
  have "\<not> levels (state_of (adc_read fuel P channel s)) PIN_SAMPLE"
    if "returned (adc_read fuel P channel s) = Some v" for v
    using adc_read_levels_ret [OF that] by simp
  with t show "\<exists>mid fin.
      map fst (since s (state_of (adc_read fuel P channel s))) = DigitalWrite PIN_SAMPLE True # mid @ fin
      \<and> list_all is_access mid \<and> list_all (\<lambda>e. \<not> is_read ADC_DR e) mid
      \<and> (case returned (adc_read fuel P channel s) of
            None \<Rightarrow> fin = []
          | Some v \<Rightarrow> mid \<noteq> [] \<and> reads_set ADC_ISR ADC_ISR_EOC (last mid)
              \<and> (\<exists>d. fin = [DigitalWrite PIN_SAMPLE False, Read ADC_DR d])
              \<and> \<not> levels (state_of (adc_read fuel P channel s)) PIN_SAMPLE)"
    by (intro exI [where x = mid] exI [where x = fin])
       (cases "returned (adc_read fuel P channel s)"; simp add: since_append [OF t(1)])
next
  fix vs assume a: "returned (adc_reads fuel P chs s) = Some vs"
  from adc_reads_probe [OF a] obtain t where
    "trace (state_of (adc_reads fuel P chs s)) = trace s @ t"
    "probe_levels (map fst t) = concat (map (\<lambda>_. [True, False]) chs)"
    by blast
  then show "probe_levels (map fst (since s (state_of (adc_reads fuel P chs s))))
           = concat (map (\<lambda>_. [True, False]) chs)"
    by (simp add: since_append)
next
  fix vs assume a: "returned (adc_reads fuel P chs s) = Some vs" and "chs \<noteq> []"
  with adc_reads_probe [OF a]
  show "\<not> levels (state_of (adc_reads fuel P chs s)) PIN_SAMPLE" by blast
qed

theorem probe_brackets_conversion_witness:
  "returned (adc_reads 5 mock [5, 3] (state_of (adc_init 5 mock (boot (mock_reset 2 (\<lambda>_. 7)))))) = Some [7, 7]
   \<and> probe_levels (map fst (since (state_of (adc_init 5 mock (boot (mock_reset 2 (\<lambda>_. 7)))))
        (state_of (adc_reads 5 mock [5, 3] (state_of (adc_init 5 mock (boot (mock_reset 2 (\<lambda>_. 7))))))))) =
        [True, False, True, False]
   \<and> \<not> levels (state_of (adc_reads 5 mock [5, 3]
          (state_of (adc_init 5 mock (boot (mock_reset 2 (\<lambda>_. 7))))))) PIN_SAMPLE"
proof -
  let ?s0 = "state_of (adc_init 5 mock (boot (mock_reset 2 (\<lambda>_. 7))))"
  note d = mock_demo [of "\<lambda>_. 7"]
  have r: "returned (adc_reads 5 mock [5, 3] ?s0) = Some [7, 7]"
    using mock_adc_reads [OF d(2) d(3), of "[5, 3]"] by (simp add: d(4))
  from probe_brackets_conversion [of ?s0 5 mock 5 "[5, 3]"] r show ?thesis
    by simp
qed

text \<open>
  C8. On the mock peripheral, for every latency the fuel covers: started from reset, the
  peripheral reports ready after calibration (\<^verbatim>\<open>adc_init\<close> returns, having seen ADRDY), and with a
  raw value of 2048 on channel 5 one iteration of the main loop puts exactly AA AA 00 08 on the
  sink; so does every later iteration.
\<close>

theorem end_to_end_2048:
  assumes "lat + 1 < fuel" and "ain 5 = 2048"
  shows "returned (adc_init fuel mock (main_setup mock (boot (mock_reset lat ain)))) = Some ()
       \<and> obs mock ADC_ISR (hw (state_of (adc_init fuel mock (main_setup mock (boot (mock_reset lat ain))))))
            AND ADC_ISR_ADRDY \<noteq> 0
       \<and> serial (state_of (main 1 fuel mock (boot (mock_reset lat ain)))) = [0xAA, 0xAA, 0x00, 0x08]
       \<and> serial (state_of (main k fuel mock (boot (mock_reset lat ain))))
           = concat (replicate k [0xAA, 0xAA, 0x00, 0x08])"
proof -
  let ?b = "main_setup mock (boot (mock_reset lat ain))"
  have hb: "hw ?b = (mock_reset lat ain)\<lparr>ahb2enr := ahb2enr (mock_reset lat ain) OR RCC_AHB2ENR_GPIOAEN,
       moder := moder (mock_reset lat ain) OR push_bit (ADC_PIN * 2) 3,
       ascr := ascr (mock_reset lat ain) OR push_bit ADC_PIN 1\<rparr>"
    using mock_main_setup [of "boot (mock_reset lat ain)"] by (simp add: boot_def mock_reset_def)
  have ab: "analog (hw ?b) = ain" "latency (hw ?b) = lat"
    unfolding hb by (simp_all add: mock_reset_def)
  have off: "mock_off (hw ?b)" "latency (hw ?b) + 1 < fuel"
    using assms(1) ab(2) by (simp_all add: hb) (simp_all add: mock_off_def mock_reset_def mask_defs)
  note i = mock_adc_init [OF off]
  note rdy = mock_ready_after_init [OF off]
  let ?s = "state_of (adc_init fuel mock ?b)"
  have r: "adc_init fuel mock ?b = Ret () ?s" using i(1) by (rule returned_unit)
  have a: "analog (hw ?s) 5 = 2048" using rdy(3) assms(2) ab(1) by simp
  have l: "latency (hw (main_pins ?s)) + 1 < fuel" using rdy(2) off(2) by simp
  have p: "mock_ready (hw (main_pins ?s))" using rdy(1) by simp
  have m: "serial (state_of (main j fuel mock (boot (mock_reset lat ain))))
           = concat (replicate j [0xAA, 0xAA, 0x00, 0x08])" for j
    unfolding main_def
    by (subst r) (simp add: mock_main_loop [OF p l] a)
  have "obs mock ADC_ISR (hw ?s) AND ADC_ISR_ADRDY \<noteq> 0"
    by (simp add: i(2) mock_value_def)
  with i(1) m [of 1] m [of k] show ?thesis by simp
qed

theorem end_to_end_2048_witness:
  "(2::nat) + 1 < 5 \<and> (\<lambda>c :: u32. if c = 5 then 2048 else 0 :: u32) 5 = 2048
   \<and> serial (state_of (main 1 5 mock (boot (mock_reset 2 (\<lambda>c. if c = 5 then 2048 else 0)))))
        = [0xAA, 0xAA, 0x00, 0x08]
   \<and> serial (state_of (main 3 5 mock (boot (mock_reset 2 (\<lambda>c. if c = 5 then 2048 else 0)))))
        = [0xAA, 0xAA, 0x00, 0x08, 0xAA, 0xAA, 0x00, 0x08, 0xAA, 0xAA, 0x00, 0x08]"
proof -
  have h: "(2::nat) + 1 < 5" "(\<lambda>c :: u32. if c = 5 then 2048 else 0 :: u32) 5 = 2048"
    by simp_all
  from end_to_end_2048 [where lat = 2 and fuel = 5 and k = 3
      and ain = "\<lambda>c. if c = 5 then 2048 else 0", OF h] h
  show ?thesis
    by (simp add: numeral_3_eq_3)
qed

text \<open>
  C6. When \<^verbatim>\<open>adc_init\<close> returns, on a peripheral whose configuration registers are plain
  storage: the continuous-mode bit of \<^verbatim>\<open>CFGR\<close> is clear (single-shot), the resolution field is 0
  (12 bit), the sample-time field of the configured channel holds \<^verbatim>\<open>SAMP_TIME\<close>, and the length
  field of \<^verbatim>\<open>SQR1\<close> is 0, which is a sequence of exactly one conversion.
\<close>

theorem adc_init_configuration:
  assumes "storage P ADC_CFGR" and "storage P ADC_SMPR1" and "storage P ADC_SQR1"
    and "returned (adc_init fuel P s) = Some ()"
  shows "obs P ADC_CFGR (hw (state_of (adc_init fuel P s))) AND ADC_CFGR_CONT = 0
       \<and> obs P ADC_CFGR (hw (state_of (adc_init fuel P s))) AND ADC_CFGR_RES = 0
       \<and> drop_bit (unat ADC_CHANNEL * 3) (obs P ADC_SMPR1 (hw (state_of (adc_init fuel P s)))) AND 7
            = SAMP_TIME
       \<and> obs P ADC_SQR1 (hw (state_of (adc_init fuel P s))) AND ADC_SQR1_L = 0"
proof -
  from adc_init_configured [OF assms(4)] assms(1-3) obtain x y z where
    "obs P ADC_CFGR (hw (state_of (adc_init fuel P s))) = (x AND NOT ADC_CFGR_CONT) AND NOT ADC_CFGR_RES"
    "obs P ADC_SMPR1 (hw (state_of (adc_init fuel P s))) =
             (y AND NOT (push_bit (unat ADC_CHANNEL * 3) 7)) OR push_bit (unat ADC_CHANNEL * 3) SAMP_TIME"
    "obs P ADC_SQR1 (hw (state_of (adc_init fuel P s))) = z AND NOT ADC_SQR1_L"
    by blast
  moreover have "((x AND NOT ADC_CFGR_CONT) AND NOT ADC_CFGR_RES) AND ADC_CFGR_CONT = 0"
    "((x AND NOT ADC_CFGR_CONT) AND NOT ADC_CFGR_RES) AND ADC_CFGR_RES = 0"
    by (rule bit_eqI, auto simp: bit_simps)+
  ultimately show ?thesis
    by (simp only: smp_field and_not_same simp_thms)
qed

theorem adc_init_configuration_witness:
  "storage mock ADC_CFGR \<and> storage mock ADC_SMPR1 \<and> storage mock ADC_SQR1
   \<and> returned (adc_init 5 mock
        (boot ((mock_reset 2 (\<lambda>_. 0))\<lparr>cfgr := 0xFFFFFFFF, smpr1 := 0xFFFFFFFF, sqr1 := 0xFFFFFFFF\<rparr>))) = Some ()
   \<and> obs mock ADC_CFGR (hw (state_of (adc_init 5 mock
        (boot ((mock_reset 2 (\<lambda>_. 0))\<lparr>cfgr := 0xFFFFFFFF, smpr1 := 0xFFFFFFFF, sqr1 := 0xFFFFFFFF\<rparr>)))))
        AND ADC_CFGR_CONT = 0
   \<and> obs mock ADC_CFGR (hw (state_of (adc_init 5 mock
        (boot ((mock_reset 2 (\<lambda>_. 0))\<lparr>cfgr := 0xFFFFFFFF, smpr1 := 0xFFFFFFFF, sqr1 := 0xFFFFFFFF\<rparr>)))))
        AND ADC_CFGR_RES = 0
   \<and> drop_bit (unat ADC_CHANNEL * 3) (obs mock ADC_SMPR1 (hw (state_of (adc_init 5 mock
        (boot ((mock_reset 2 (\<lambda>_. 0))\<lparr>cfgr := 0xFFFFFFFF, smpr1 := 0xFFFFFFFF, sqr1 := 0xFFFFFFFF\<rparr>))))))
        AND 7 = SAMP_TIME
   \<and> obs mock ADC_SQR1 (hw (state_of (adc_init 5 mock
        (boot ((mock_reset 2 (\<lambda>_. 0))\<lparr>cfgr := 0xFFFFFFFF, smpr1 := 0xFFFFFFFF, sqr1 := 0xFFFFFFFF\<rparr>)))))
        AND ADC_SQR1_L = 0"
proof -
  let ?b = "boot ((mock_reset 2 (\<lambda>_. 0))\<lparr>cfgr := 0xFFFFFFFF, smpr1 := 0xFFFFFFFF, sqr1 := 0xFFFFFFFF\<rparr>)"
  have off: "mock_off (hw ?b)" "latency (hw ?b) + 1 < 5"
    by (simp_all add: mock_off_def mock_reset_def mask_defs)
  note r = mock_adc_init(1) [OF off]
  from adc_init_configuration [OF storage_mock r] storage_mock r show ?thesis
    by simp
qed

text \<open>
  C3. After \<^verbatim>\<open>adc_init\<close> and then any number of \<^verbatim>\<open>adc_read\<close> calls with varying channels, each
  below 32 (the five-bit slot; the peripheral's channels 0..18 are among them), on a peripheral
  whose \<^verbatim>\<open>SQR1\<close> is plain storage: the length field of \<^verbatim>\<open>SQR1\<close> is still 0 (one entry), and
  the first slot holds the channel of the most recent call.
\<close>

theorem single_entry_sequence:
  assumes "storage P ADC_SQR1"
    and "returned (adc_init fuel P s) = Some ()"
    and "returned (adc_reads fuel P chs (state_of (adc_init fuel P s))) = Some vs"
    and "\<forall>c \<in> set chs. c < 32"
  shows "obs P ADC_SQR1 (hw (state_of (adc_reads fuel P chs (state_of (adc_init fuel P s)))))
           AND ADC_SQR1_L = 0
       \<and> (chs \<noteq> [] \<longrightarrow>
            drop_bit 6 (obs P ADC_SQR1 (hw (state_of (adc_reads fuel P chs (state_of (adc_init fuel P s))))))
              AND 0x1F = ucast (last chs))"
proof -
  from adc_init_configured(3) [OF assms(2) assms(1)] obtain x where
    "obs P ADC_SQR1 (hw (state_of (adc_init fuel P s))) = x AND NOT ADC_SQR1_L"
    by blast
  then have l: "obs P ADC_SQR1 (hw (state_of (adc_init fuel P s))) AND ADC_SQR1_L = 0"
    by (simp only: and_not_same)
  have "ucast (last chs) AND (0x1F :: u32) = ucast (last chs)" if "chs \<noteq> []"
    using assms(4) that by (intro sq1_field_small) simp
  with adc_reads_sqr1 [OF assms(1) assms(3)] l show ?thesis
    by simp
qed

theorem single_entry_sequence_witness:
  "storage mock ADC_SQR1
   \<and> returned (adc_init 5 mock (boot ((mock_reset 2 (\<lambda>_. 0))\<lparr>sqr1 := 0xFFFFFFFF\<rparr>))) = Some ()
   \<and> returned (adc_reads 5 mock [5, 3, 7]
        (state_of (adc_init 5 mock (boot ((mock_reset 2 (\<lambda>_. 0))\<lparr>sqr1 := 0xFFFFFFFF\<rparr>))))) = Some [0, 0, 0]
   \<and> list_all (\<lambda>c. c < 32) [5, 3, 7 :: u8]
   \<and> obs mock ADC_SQR1 (hw (state_of (adc_reads 5 mock [5, 3, 7]
        (state_of (adc_init 5 mock (boot ((mock_reset 2 (\<lambda>_. 0))\<lparr>sqr1 := 0xFFFFFFFF\<rparr>)))))))
        AND ADC_SQR1_L = 0
   \<and> drop_bit 6 (obs mock ADC_SQR1 (hw (state_of (adc_reads 5 mock [5, 3, 7]
        (state_of (adc_init 5 mock (boot ((mock_reset 2 (\<lambda>_. 0))\<lparr>sqr1 := 0xFFFFFFFF\<rparr>))))))))
        AND 0x1F = 7"
proof -
  let ?b = "boot ((mock_reset 2 (\<lambda>_. 0))\<lparr>sqr1 := 0xFFFFFFFF\<rparr>)"
  have off: "mock_off (hw ?b)" "latency (hw ?b) + 1 < 5"
    by (simp_all add: mock_off_def mock_reset_def mask_defs)
  note r = mock_adc_init(1) [OF off]
  note rdy = mock_ready_after_init [OF off]
  have l: "latency (hw (state_of (adc_init 5 mock ?b))) + 1 < 5"
    using rdy(2) off(2) by simp
  have rs: "returned (adc_reads 5 mock [5, 3, 7] (state_of (adc_init 5 mock ?b))) = Some [0, 0, 0]"
    using mock_adc_reads [OF rdy(1) l, of "[5, 3, 7]"] rdy(3) by (simp add: mock_reset_def)
  have c: "\<forall>c \<in> set [5, 3, 7 :: u8]. c < 32" by simp
  from single_entry_sequence [OF storage_mock(3) r rs c] storage_mock(3) r rs show ?thesis
    by simp
qed

text \<open>
  C2. In every call of \<^verbatim>\<open>adc_read\<close>, whatever its outcome and whatever the peripheral, the
  end-of-conversion flag is cleared strictly before the start bit is asserted: the call makes
  exactly one write to the status register and exactly one to the control register; the status write
  carries the EOC bit, the control write that follows carries ADSTART, and the only access between
  the two is the read of the control register that belongs to \<^verbatim>\<open>CR |= ADSTART\<close>.
  On the mock peripheral, entered enabled and with no operation in progress (the state \<^verbatim>\<open>adc_init\<close>
  leaves), no end-of-conversion flag is observable in the state in which the start bit is written,
  whatever flags were set at entry: every write to the control register that carries ADSTART is made
  in a state whose status register has EOC clear. With fuel for the conversion the call returns and
  leaves the mock enabled and idle again, so the same holds of the next call.
\<close>

theorem flag_cleared_before_start:
  "(\<exists>pre c h post.
     since s (state_of (adc_read fuel P channel s)) =
       pre @ [(Write ADC_ISR (c OR ADC_ISR_EOC), h),
              (Read ADC_CR (obs P ADC_CR (p_write P ADC_ISR (c OR ADC_ISR_EOC) h)),
                 p_write P ADC_ISR (c OR ADC_ISR_EOC) h),
              (Write ADC_CR (obs P ADC_CR (p_write P ADC_ISR (c OR ADC_ISR_EOC) h) OR ADC_CR_ADSTART),
                 after_read P ADC_CR (p_write P ADC_ISR (c OR ADC_ISR_EOC) h))] @ post
     \<and> list_all (\<lambda>x. \<not> is_write ADC_ISR (fst x) \<and> \<not> is_write ADC_CR (fst x)) (pre @ post))
   \<and> (mock_ready (hw m) \<longrightarrow>
        list_all (start_sees_no_flag mock) (since m (state_of (adc_read fuel mock channel m)))
        \<and> (latency (hw m) + 1 < fuel \<longrightarrow>
             returned (adc_read fuel mock channel m) \<noteq> None
             \<and> mock_ready (hw (state_of (adc_read fuel mock channel m)))))"
proof -
  from adc_read_trace [of fuel P channel s] obtain pre h5 polls fin where
    tr: "trace (state_of (adc_read fuel P channel s)) = trace s @ (DigitalWrite PIN_SAMPLE True, hw s) # pre @
       [(Read ADC_ISR (obs P ADC_ISR h5), h5),
        (Write ADC_ISR (obs P ADC_ISR h5 OR ADC_ISR_EOC), after_read P ADC_ISR h5),
        (Read ADC_CR (obs P ADC_CR (p_write P ADC_ISR (obs P ADC_ISR h5 OR ADC_ISR_EOC) (after_read P ADC_ISR h5))),
           p_write P ADC_ISR (obs P ADC_ISR h5 OR ADC_ISR_EOC) (after_read P ADC_ISR h5)),
        (Write ADC_CR
           (obs P ADC_CR (p_write P ADC_ISR (obs P ADC_ISR h5 OR ADC_ISR_EOC) (after_read P ADC_ISR h5))
              OR ADC_CR_ADSTART),
           after_read P ADC_CR (p_write P ADC_ISR (obs P ADC_ISR h5 OR ADC_ISR_EOC) (after_read P ADC_ISR h5)))]
       @ polls @ fin"
    and pre: "list_all (\<lambda>x. is_read ADC_SQR1 (fst x) \<or> is_write ADC_SQR1 (fst x)) pre"
    and polls: "list_all (\<lambda>x. is_read ADC_ISR (fst x)) polls"
    and fin: "case returned (adc_read fuel P channel s) of
           None \<Rightarrow> fin = []
         | Some v \<Rightarrow> polls \<noteq> [] \<and> reads_set ADC_ISR ADC_ISR_EOC (fst (last polls))
             \<and> (\<exists>h9. fin = [(DigitalWrite PIN_SAMPLE False, h9), (Read ADC_DR (obs P ADC_DR h9), h9)]
                     \<and> v = ucast (obs P ADC_DR h9))"
    by blast
  let ?Q = "\<lambda>x :: event \<times> 'a. \<not> is_write ADC_ISR (fst x) \<and> \<not> is_write ADC_CR (fst x)"
  have 1: "list_all ?Q pre"
    by (rule list_all_imp [OF pre]) (auto dest: kinds)
  have 2: "list_all ?Q polls"
    by (rule list_all_imp [OF polls]) (auto dest: kinds)
  have 3: "list_all ?Q fin"
    using fin by (cases "returned (adc_read fuel P channel s)") auto
  have order: "\<exists>pre c h post.
     since s (state_of (adc_read fuel P channel s)) =
       pre @ [(Write ADC_ISR (c OR ADC_ISR_EOC), h),
              (Read ADC_CR (obs P ADC_CR (p_write P ADC_ISR (c OR ADC_ISR_EOC) h)),
                 p_write P ADC_ISR (c OR ADC_ISR_EOC) h),
              (Write ADC_CR (obs P ADC_CR (p_write P ADC_ISR (c OR ADC_ISR_EOC) h) OR ADC_CR_ADSTART),
                 after_read P ADC_CR (p_write P ADC_ISR (c OR ADC_ISR_EOC) h))] @ post
     \<and> list_all (\<lambda>x. \<not> is_write ADC_ISR (fst x) \<and> \<not> is_write ADC_CR (fst x)) (pre @ post)"
    apply (rule exI [where x = "(DigitalWrite PIN_SAMPLE True, hw s) # pre @ [(Read ADC_ISR (obs P ADC_ISR h5), h5)]"])
    apply (rule exI [where x = "obs P ADC_ISR h5"])
    apply (rule exI [where x = "after_read P ADC_ISR h5"])
    apply (rule exI [where x = "polls @ fin"])
    using 1 2 3 apply (simp add: since_append [OF tr])
    done
  have flag: "list_all (start_sees_no_flag mock) (since m (state_of (adc_read fuel mock channel m)))"
    if "mock_ready (hw m)"
    by (rule mock_start_sees_no_flag [OF that])
  have ret: "returned (adc_read fuel mock channel m) \<noteq> None
             \<and> mock_ready (hw (state_of (adc_read fuel mock channel m)))"
    if "mock_ready (hw m)" "latency (hw m) + 1 < fuel"
    using mock_adc_read(1) [OF that] mock_adc_read_keeps(1) [OF that] by simp
  from order flag ret show ?thesis by blast
qed

theorem flag_cleared_before_start_witness:
  "(let s0 = state_of (adc_init 5 mock (boot (mock_reset 2 (\<lambda>_. 0))));
        m = s0\<lparr>hw := (hw s0)\<lparr>isr := isr (hw s0) OR ADC_ISR_EOC\<rparr>\<rparr>
    in mock_ready (hw m)
       \<and> obs mock ADC_ISR (hw m) AND ADC_ISR_EOC = ADC_ISR_EOC
       \<and> (\<exists>pre c h post.
            since m (state_of (adc_read 5 mock 5 m)) =
              pre @ [(Write ADC_ISR (c OR ADC_ISR_EOC), h),
                     (Read ADC_CR (obs mock ADC_CR (p_write mock ADC_ISR (c OR ADC_ISR_EOC) h)),
                        p_write mock ADC_ISR (c OR ADC_ISR_EOC) h),
                     (Write ADC_CR (obs mock ADC_CR (p_write mock ADC_ISR (c OR ADC_ISR_EOC) h) OR ADC_CR_ADSTART),
                        after_read mock ADC_CR (p_write mock ADC_ISR (c OR ADC_ISR_EOC) h))] @ post
            \<and> obs mock ADC_ISR (after_read mock ADC_CR (p_write mock ADC_ISR (c OR ADC_ISR_EOC) h))
                  AND ADC_ISR_EOC = 0)
       \<and> returned (adc_read 5 mock 5 m) \<noteq> None
       \<and> mock_ready (hw (state_of (adc_read 5 mock 5 m))))"
proof -
  define s0 where "s0 = state_of (adc_init 5 mock (boot (mock_reset 2 (\<lambda>_. 0))))"
  define m where "m = s0\<lparr>hw := (hw s0)\<lparr>isr := isr (hw s0) OR ADC_ISR_EOC\<rparr>\<rparr>"
  note d = mock_demo [of "\<lambda>_. 0", folded s0_def]
  have rdy: "mock_ready (hw m)"
    using d(2) by (simp add: m_def mock_ready_def)
  have lat: "latency (hw m) + 1 < 5"
    using d(3) by (simp add: m_def)
  have stale: "obs mock ADC_ISR (hw m) AND ADC_ISR_EOC = ADC_ISR_EOC"
    by (simp add: m_def mock_value_def)
  from flag_cleared_before_start [of m 5 mock 5 m] rdy lat obtain pre c h post where
    tr: "since m (state_of (adc_read 5 mock 5 m)) =
              pre @ [(Write ADC_ISR (c OR ADC_ISR_EOC), h),
                     (Read ADC_CR (obs mock ADC_CR (p_write mock ADC_ISR (c OR ADC_ISR_EOC) h)),
                        p_write mock ADC_ISR (c OR ADC_ISR_EOC) h),
                     (Write ADC_CR (obs mock ADC_CR (p_write mock ADC_ISR (c OR ADC_ISR_EOC) h) OR ADC_CR_ADSTART),
                        after_read mock ADC_CR (p_write mock ADC_ISR (c OR ADC_ISR_EOC) h))] @ post"
    and all: "list_all (start_sees_no_flag mock) (since m (state_of (adc_read 5 mock 5 m)))"
    and ret: "returned (adc_read 5 mock 5 m) \<noteq> None"
      "mock_ready (hw (state_of (adc_read 5 mock 5 m)))"
    by (elim exE conjE impE) simp_all
  from all have "start_sees_no_flag mock
     (Write ADC_CR (obs mock ADC_CR (p_write mock ADC_ISR (c OR ADC_ISR_EOC) h) OR ADC_CR_ADSTART),
        after_read mock ADC_CR (p_write mock ADC_ISR (c OR ADC_ISR_EOC) h))"
    unfolding tr by simp
  then have "obs mock ADC_ISR (after_read mock ADC_CR (p_write mock ADC_ISR (c OR ADC_ISR_EOC) h))
                  AND ADC_ISR_EOC = 0"
    unfolding start_sees_no_flag_def by simp
  with tr rdy stale ret show ?thesis
    unfolding Let_def s0_def [symmetric] m_def [symmetric] by blast
qed




text \<open>
  C7. During \<^verbatim>\<open>adc_init\<close>, whatever its outcome, no write to the control register that carries
  the calibration bit is made in a state in which the control register shows the peripheral enabled.
  This holds on every peripheral whose ADEN and ADCAL bits are raised only by writing 1 to them (the
  hardware clears them, it never sets them), entered with no calibration in progress. And if the
  test of ADEN at the start reads the bit set: the first write to the control register carries
  ADDIS, and after it the register is only polled, every poll reading ADEN set, until a poll reads
  ADEN clear; when no poll does, \<^verbatim>\<open>adc_init\<close> does not return, and nothing else has been done.
\<close>

theorem calibration_only_when_disabled:
  assumes "raised_by_writes_only P ADC_CR ADC_CR_ADEN"
    and "raised_by_writes_only P ADC_CR ADC_CR_ADCAL"
    and "obs P ADC_CR (hw s) AND ADC_CR_ADCAL = 0"
  shows "list_all (calibration_disabled P) (since s (state_of (adc_init fuel P s)))
     \<and> (obs P ADC_CR (hw (adc_init_clocks P s)) AND ADC_CR_ADEN \<noteq> 0 \<longrightarrow>
          (\<exists>pre c h polls rest.
             since s (state_of (adc_init fuel P s)) =
               pre @ (Write ADC_CR (c OR ADC_CR_ADDIS), h) # polls @ rest
             \<and> list_all (\<lambda>x. \<not> is_write ADC_CR (fst x)) pre
             \<and> list_all (\<lambda>x. reads_set ADC_CR ADC_CR_ADEN (fst x)) polls
             \<and> (case rest of [] \<Rightarrow> returned (adc_init fuel P s) = None
                | x # _ \<Rightarrow> is_read ADC_CR (fst x) \<and> \<not> reads_set ADC_CR ADC_CR_ADEN (fst x))))"
proof -
  have c: "cr_clear P ADC_CR_ADCAL s" using assms(3) by (simp add: cr_clear_def)
  have "list_all (calibration_disabled P) (since s (state_of (adc_init fuel P s)))"
    by (rule extends_with_since [OF cd_adc_init [OF assms(1,2) c]])
  with adc_init_blocks [OF assms(1,2), of s fuel] show ?thesis by blast
qed

theorem calibration_only_when_disabled_witness:
  "(let m = state_of (adc_init 5 mock (boot (mock_reset 2 (\<lambda>_. 0))))
    in raised_by_writes_only mock ADC_CR ADC_CR_ADEN
       \<and> raised_by_writes_only mock ADC_CR ADC_CR_ADCAL
       \<and> obs mock ADC_CR (hw m) AND ADC_CR_ADCAL = 0
       \<and> obs mock ADC_CR (hw (adc_init_clocks mock m)) AND ADC_CR_ADEN \<noteq> 0
       \<and> list_all (calibration_disabled mock) (since m (state_of (adc_init 5 mock m)))
       \<and> (\<exists>x \<in> set (since m (state_of (adc_init 5 mock m))).
            writes_set ADC_CR ADC_CR_ADCAL (fst x) \<and> obs mock ADC_CR (snd x) AND ADC_CR_ADEN = 0)
       \<and> (\<exists>pre c h polls rest.
             since m (state_of (adc_init 5 mock m)) =
               pre @ (Write ADC_CR (c OR ADC_CR_ADDIS), h) # polls @ rest
             \<and> list_all (\<lambda>x. \<not> is_write ADC_CR (fst x)) pre
             \<and> list_all (\<lambda>x. reads_set ADC_CR ADC_CR_ADEN (fst x)) polls
             \<and> (case rest of [] \<Rightarrow> returned (adc_init 5 mock m) = None
                | x # _ \<Rightarrow> is_read ADC_CR (fst x) \<and> \<not> reads_set ADC_CR ADC_CR_ADEN (fst x))))"
proof -
  define m where "m = state_of (adc_init 5 mock (boot (mock_reset 2 (\<lambda>_. 0))))"
  note d = mock_demo [of "\<lambda>_. 0", folded m_def]
  have en: "raised_by_writes_only mock ADC_CR ADC_CR_ADEN"
    and cal: "raised_by_writes_only mock ADC_CR ADC_CR_ADCAL"
    by (rule raised_mock, simp)+
  have c: "obs mock ADC_CR (hw m) AND ADC_CR_ADCAL = 0"
    using d(2) by (simp add: mock_ready_def mock_value_def)
  note k = mock_ready_clocks [OF d(2)]
  have on: "obs mock ADC_CR (hw (adc_init_clocks mock m)) AND ADC_CR_ADEN \<noteq> 0"
    using k(1) by (simp add: mock_ready_def mock_value_def)
  have "returned (adc_init_disable 5 mock (adc_init_clocks mock m)) \<noteq> None"
    using mock_adc_init_disable_ready [OF k(1), of 5] d(3) by (simp add: k(2))
  from adc_init_calibration_write [OF en cal _ this] c obtain x where
    x: "x \<in> set (since m (state_of (adc_init 5 mock m)))" "writes_set ADC_CR ADC_CR_ADCAL (fst x)"
    by (auto simp: cr_clear_def)
  note th = calibration_only_when_disabled [OF en cal c, of 5]
  from th have all: "list_all (calibration_disabled mock) (since m (state_of (adc_init 5 mock m)))"
    by (rule conjunct1)
  from th on have str: "\<exists>pre c h polls rest.
             since m (state_of (adc_init 5 mock m)) =
               pre @ (Write ADC_CR (c OR ADC_CR_ADDIS), h) # polls @ rest
             \<and> list_all (\<lambda>x. \<not> is_write ADC_CR (fst x)) pre
             \<and> list_all (\<lambda>x. reads_set ADC_CR ADC_CR_ADEN (fst x)) polls
             \<and> (case rest of [] \<Rightarrow> returned (adc_init 5 mock m) = None
                | x # _ \<Rightarrow> is_read ADC_CR (fst x) \<and> \<not> reads_set ADC_CR ADC_CR_ADEN (fst x))"
    by (elim conjE impE) assumption
  from all x have "obs mock ADC_CR (snd x) AND ADC_CR_ADEN = 0"
    by (simp add: list_all_iff calibration_disabled_def)
  with x have ex: "\<exists>x \<in> set (since m (state_of (adc_init 5 mock m))).
            writes_set ADC_CR ADC_CR_ADCAL (fst x) \<and> obs mock ADC_CR (snd x) AND ADC_CR_ADEN = 0"
    by blast
  from en cal c on all ex str show ?thesis
    unfolding Let_def m_def [symmetric] by (intro conjI)
qed




end
